theory Spec2Isabelle
  imports Main "HOL-Library.Sublist" "HOL-Library.Dlist" "HOL-Library.Monad_Syntax"
begin

section \<open>Values, payloads and events\<close>

text \<open>
  Modelled from the spec: \<^verbatim>\<open>codec.Value\<close> is declared in the codec package, which is not
  part of the sources. The spec gives its variants (primitive, resource reference, soft
  reference, opaque data, and the sentinel Delete) and says that equality is structural.
  \<open>ZeroValue\<close> is the zero value of the Go struct: what \<^verbatim>\<open>make([]codec.Value, k)\<close> fills a
  new slice with and what reading an absent key of a Go map yields.
\<close>

datatype Value =
    ZeroValue
  | Primitive string
  | ResourceRef string
  | SoftRef string
  | DataValue string
  | DeleteValue

text \<open>Modelled from the spec: \<^verbatim>\<open>Value.Equal\<close>, structural equality.\<close>

definition Equal :: "Value \<Rightarrow> Value \<Rightarrow> bool" where
  "Equal v w = (v = w)"

text \<open>The test \<^verbatim>\<open>v.Type == codec.ValueTypeDelete\<close>.\<close>

definition isDelete :: "Value \<Rightarrow> bool" where
  "isDelete v = (v = DeleteValue)"

text \<open>
  A decoded \<^verbatim>\<open>map[string]codec.Value\<close> that the code ranges over is an association list:
  its order stands for the iteration order Go happens to choose.
\<close>

type_synonym Props = "(string \<times> Value) list"

datatype error =
    BusTransport string
  | ProtocolDecode string
  | ResourceError string string

record GetResult =
  Model :: "Props option"
  Collection :: "Value list"
  Query :: string

text \<open>
  Modelled from the spec: the wire codec is an external collaborator with opaque encode and
  decode functions. A payload is represented by what it decodes to; \<open>Malformed\<close> stands
  for bytes that no decoder accepts.
\<close>

datatype Payload =
    NoPayload
  | Malformed
  | ChangePayload Props
  | LegacyChangePayload Props
  | AddPayload int Value
  | RemovePayload int
  | GetResponse GetResult
  | ErrorResponse error

type_synonym ref = nat

record ResourceEvent =
  Event :: string
  Payload :: Payload
  Idx :: int
  Value :: Value
  Changed :: Props
  OldValues :: "ref option"

text \<open>The literal \<^verbatim>\<open>&ResourceEvent{Event: ev, Payload: p}\<close>: every other field is zero.\<close>

definition newEvent :: "string \<Rightarrow> Payload \<Rightarrow> ResourceEvent" where
  "newEvent ev p =
     \<lparr>Event = ev, Payload = p, Idx = 0, Value = ZeroValue, Changed = [], OldValues = None\<rparr>"

definition EncodeRemoveEvent :: "int \<Rightarrow> Payload" where
  "EncodeRemoveEvent i = RemovePayload i"

definition EncodeAddEvent :: "Value \<Rightarrow> int \<Rightarrow> Payload" where
  "EncodeAddEvent v i = AddPayload i v"

definition DecodeAddEvent :: "Payload \<Rightarrow> error + (int \<times> Value)" where
  "DecodeAddEvent p =
     (case p of AddPayload i v \<Rightarrow> Inr (i, v) | _ \<Rightarrow> Inl (ProtocolDecode ''add''))"

definition DecodeRemoveEvent :: "Payload \<Rightarrow> error + int" where
  "DecodeRemoveEvent p =
     (case p of RemovePayload i \<Rightarrow> Inr i | _ \<Rightarrow> Inl (ProtocolDecode ''remove''))"

section \<open>Checked slice access\<close>

text \<open>
  Go panics on an index out of range; \<open>None\<close> is that panic. Indices and lengths that the
  code keeps non-negative are natural numbers. Go's \<^verbatim>\<open>int\<close> has 64 bits; the model does
  not wrap around, the lengths of slices in memory being far below that bound.
\<close>

definition nth_opt :: "'a list \<Rightarrow> nat \<Rightarrow> 'a option" where
  "nth_opt xs i = (if i < length xs then Some (xs ! i) else None)"

definition upd_opt :: "'a list \<Rightarrow> nat \<Rightarrow> 'a \<Rightarrow> 'a list option" where
  "upd_opt xs i v = (if i < length xs then Some (xs[i := v]) else None)"

text \<open>The slice expression \<^verbatim>\<open>xs[lo:hi]\<close>.\<close>

definition slice_opt :: "'a list \<Rightarrow> nat \<Rightarrow> nat \<Rightarrow> 'a list option" where
  "slice_opt xs lo hi =
     (if lo \<le> hi \<and> hi \<le> length xs then Some (take (hi - lo) (drop lo xs)) else None)"

section \<open>The diff engine: \<^verbatim>\<open>lcs\<close>\<close>

text \<open>\<^verbatim>\<open>for s < m && s < n && a[s].Equal(b[s]) { s++ }\<close> with \<open>m\<close>, \<open>n\<close> the two lengths.\<close>

function trimStart :: "Value list \<Rightarrow> Value list \<Rightarrow> nat \<Rightarrow> nat option" where
  "trimStart a b s =
     (if s < length a \<and> s < length b then
        do { x \<leftarrow> nth_opt a s;
             y \<leftarrow> nth_opt b s;
             if Equal x y then trimStart a b (s + 1) else Some s }
      else Some s)"
  by pat_completeness auto
termination
  by (relation "measure (\<lambda>(a, b, s). length a - s)") auto

text \<open>\<^verbatim>\<open>for s < m && s < n && a[m-1].Equal(b[n-1]) { m--; n-- }\<close>\<close>

function trimEnd :: "Value list \<Rightarrow> Value list \<Rightarrow> nat \<Rightarrow> nat \<Rightarrow> nat \<Rightarrow> (nat \<times> nat) option" where
  "trimEnd a b s m n =
     (if s < m \<and> s < n then
        do { x \<leftarrow> nth_opt a (m - 1);
             y \<leftarrow> nth_opt b (n - 1);
             if Equal x y then trimEnd a b s (m - 1) (n - 1) else Some (m, n) }
      else Some (m, n))"
  by pat_completeness auto
termination
  by (relation "measure (\<lambda>(a, b, s, m, n). m)") auto

text \<open>
  The inner loop of the matrix computation, \<^verbatim>\<open>for j = 0; j < n; j++\<close>, at row \<open>i\<close>.
  The matrix is the flat slice \<open>c\<close> of width \<open>w\<close>.
\<close>

function lcsInner ::
  "Value list \<Rightarrow> Value list \<Rightarrow> nat \<Rightarrow> nat \<Rightarrow> nat \<Rightarrow> nat \<Rightarrow> nat list \<Rightarrow> nat list option" where
  "lcsInner aa bb w n i j c =
     (if j < n then
        do { x \<leftarrow> nth_opt aa i;
             y \<leftarrow> nth_opt bb j;
             c' \<leftarrow> (if Equal x y then
                      do { v \<leftarrow> nth_opt c (i + w * j);
                           upd_opt c ((i + 1) + w * (j + 1)) (v + 1) }
                    else
                      do { v1 \<leftarrow> nth_opt c ((i + 1) + w * j);
                           v2 \<leftarrow> nth_opt c (i + w * (j + 1));
                           if v2 > v1 then upd_opt c ((i + 1) + w * (j + 1)) v2
                           else upd_opt c ((i + 1) + w * (j + 1)) v1 });
             lcsInner aa bb w n i (j + 1) c' }
      else Some c)"
  by pat_completeness auto
termination
  by (relation "measure (\<lambda>(aa, bb, w, n, i, j, c). n - j)") auto

text \<open>The outer loop, \<^verbatim>\<open>for i = 0; i < m; i++\<close>.\<close>

function lcsOuter ::
  "Value list \<Rightarrow> Value list \<Rightarrow> nat \<Rightarrow> nat \<Rightarrow> nat \<Rightarrow> nat \<Rightarrow> nat list \<Rightarrow> nat list option" where
  "lcsOuter aa bb w m n i c =
     (if i < m then
        do { c' \<leftarrow> lcsInner aa bb w n i 0 c;
             lcsOuter aa bb w m n (i + 1) c' }
      else Some c)"
  by pat_completeness auto
termination
  by (relation "measure (\<lambda>(aa, bb, w, m, n, i, c). m - i)") auto

text \<open>
  The three guarded cases of the \<^verbatim>\<open>switch\<close> in the backtracking loop, with Go's
  short-circuit evaluation: a slice is read only where the source reads it.
  Here \<open>i - 1\<close> and \<open>j - 1\<close> are the source's \<open>m\<close> and \<open>n\<close>.
\<close>

definition caseMatch :: "Value list \<Rightarrow> Value list \<Rightarrow> nat \<Rightarrow> nat \<Rightarrow> bool option" where
  "caseMatch aa bb i j =
     (if i > 0 \<and> j > 0 then
        do { x \<leftarrow> nth_opt aa (i - 1); y \<leftarrow> nth_opt bb (j - 1); Some (Equal x y) }
      else Some False)"

definition caseAdd :: "nat \<Rightarrow> nat list \<Rightarrow> nat \<Rightarrow> nat \<Rightarrow> bool option" where
  "caseAdd w c i j =
     (if j > 0 then
        (if i = 0 then Some True
         else do { v1 \<leftarrow> nth_opt c (i + w * (j - 1));
                   v2 \<leftarrow> nth_opt c ((i - 1) + w * j);
                   Some (v1 \<ge> v2) })
      else Some False)"

definition caseRemove :: "nat \<Rightarrow> nat list \<Rightarrow> nat \<Rightarrow> nat \<Rightarrow> bool option" where
  "caseRemove w c i j =
     (if i > 0 then
        (if j = 0 then Some True
         else do { v1 \<leftarrow> nth_opt c (i + w * (j - 1));
                   v2 \<leftarrow> nth_opt c ((i - 1) + w * j);
                   Some (v1 < v2) })
      else Some False)"

text \<open>An entry \<^verbatim>\<open>[3]int{n, idx, r}\<close> of \<^verbatim>\<open>adds\<close>.\<close>

type_synonym addRec = "nat \<times> nat \<times> nat"

text \<open>
  The loop labelled \<^verbatim>\<open>Loop\<close>. It returns the final \<open>r\<close>, \<open>steps\<close> and \<open>adds\<close>.
\<close>

function backtrack ::
  "Value list \<Rightarrow> Value list \<Rightarrow> nat \<Rightarrow> nat list \<Rightarrow> nat \<Rightarrow> nat \<Rightarrow> nat \<Rightarrow> nat \<Rightarrow>
   ResourceEvent list \<Rightarrow> addRec list \<Rightarrow> (nat \<times> ResourceEvent list \<times> addRec list) option" where
  "backtrack aa bb w c idx i j r steps adds =
     (case caseMatch aa bb i j of
        None \<Rightarrow> None
      | Some True \<Rightarrow> backtrack aa bb w c (idx - 1) (i - 1) (j - 1) r steps adds
      | Some False \<Rightarrow>
          (case caseAdd w c i j of
             None \<Rightarrow> None
           | Some True \<Rightarrow> backtrack aa bb w c idx i (j - 1) r steps (adds @ [(j - 1, idx, r)])
           | Some False \<Rightarrow>
               (case caseRemove w c i j of
                  None \<Rightarrow> None
                | Some True \<Rightarrow>
                    backtrack aa bb w c (idx - 1) (i - 1) j (r + 1)
                      (steps @ [newEvent ''remove'' (EncodeRemoveEvent (int (idx - 1)))]) adds
                | Some False \<Rightarrow> Some (r, steps, adds))))"
  by pat_completeness auto

termination
  by (relation "measure (\<lambda>(aa, bb, w, c, idx, i, j, r, steps, adds). i + j)")
     (auto simp: caseMatch_def caseAdd_def caseRemove_def split: if_splits)

text \<open>
  The loop \<^verbatim>\<open>for i := l; i >= 0; i--\<close> that appends the add events. The first nat argument
  counts the entries still to emit, so that \<open>Suc i\<close> is the step with the source's loop
  variable equal to \<open>i\<close>; the source's \<open>l\<close> is \<open>int (length adds) - 1\<close>.
\<close>

fun emitAdds ::
  "Value list \<Rightarrow> addRec list \<Rightarrow> nat \<Rightarrow> nat \<Rightarrow> ResourceEvent list \<Rightarrow> ResourceEvent list option" where
  "emitAdds bb adds r 0 steps = Some steps"
| "emitAdds bb adds r (Suc i) steps =
     do { add \<leftarrow> nth_opt adds i;
          v \<leftarrow> nth_opt bb (fst add);
          emitAdds bb adds r i
            (steps @ [newEvent ''add'' (EncodeAddEvent v
               (int (fst (snd add)) - int r + int (snd (snd add))
                  + (int (length adds) - 1) - int i))]) }"

text \<open>
  \<^verbatim>\<open>lcs\<close> itself. \<^verbatim>\<open>make([]*ResourceEvent, 0, cap)\<close> panics on a negative capacity, which
  is the test on \<open>top\<close>.
\<close>

definition lcs :: "Value list \<Rightarrow> Value list \<Rightarrow> ResourceEvent list option" where
  "lcs a b =
     do { s \<leftarrow> trimStart a b 0;
          if s = length a \<and> s = length b then Some []
          else
            do { (m, n) \<leftarrow> trimEnd a b s (length a) (length b);
                 (aa, m') \<leftarrow> (if s > 0 \<or> m < length a
                              then do { x \<leftarrow> slice_opt a s m; Some (x, m - s) }
                              else Some (a, m));
                 (bb, n') \<leftarrow> (if s > 0 \<or> n < length b
                              then do { y \<leftarrow> slice_opt b s n; Some (y, n - s) }
                              else Some (b, n));
                 c \<leftarrow> lcsOuter aa bb (m' + 1) m' n' 0 (replicate ((m' + 1) * (n' + 1)) 0);
                 top \<leftarrow> nth_opt c ((m' + 1) * (n' + 1) - 1);
                 if m' + n' < 2 * top then None
                 else
                   do { (r, steps, adds) \<leftarrow> backtrack aa bb (m' + 1) c (m' + s) m' n' 0 [] [];
                        emitAdds bb adds r (length adds) steps } } }"


section \<open>The cached state\<close>

text \<open>The constants of \<^verbatim>\<open>subscriptionState\<close>, a byte counted up by \<^verbatim>\<open>iota\<close>.\<close>

datatype subscriptionState =
    stateSubscribed
  | stateError
  | stateRequested
  | stateCollection
  | stateModel

fun stateByte :: "subscriptionState \<Rightarrow> nat" where
  "stateByte stateSubscribed = 0"
| "stateByte stateError = 1"
| "stateByte stateRequested = 2"
| "stateByte stateCollection = 3"
| "stateByte stateModel = 4"

text \<open>
  A \<^verbatim>\<open>Subscriber\<close> is an interface value; a non-nil one is identified by a number.
  The set \<^verbatim>\<open>map[Subscriber]struct{}\<close> is a list without duplicates whose order stands
  for the iteration order; \<open>None\<close> is the nil map.
\<close>

type_synonym Subscriber = nat

text \<open>
  A \<^verbatim>\<open>*Model\<close> or \<^verbatim>\<open>*Collection\<close> is an address of the store of containers. The field
  \<^verbatim>\<open>Values\<close> of a container is never assigned after its allocation, so a container is
  identified with its \<^verbatim>\<open>Values\<close>; the memoised \<^verbatim>\<open>data\<close> of \<^verbatim>\<open>MarshalJSON\<close> is left out.
\<close>

datatype Container =
    MkModel "string \<rightharpoonup> Value"
  | MkCollection "Value list"

record ResourceSubscription =
  query :: string
  state :: subscriptionState
  subs :: "Subscriber dlist option"
  resetting :: bool
  links :: "string list"
  model :: "ref option"
  collection :: "ref option"
  err :: "error option"

text \<open>
  Modelled from the spec: the type \<^verbatim>\<open>EventSubscription\<close> is declared outside the sources.
  These are the fields the spec lists and the code uses: \<^verbatim>\<open>base\<close>, \<^verbatim>\<open>queries\<close>,
  \<^verbatim>\<open>links\<close> (here \<open>elinks\<close>, a map that the code tests for nil) and the count of live
  subscribers.
\<close>

record EventSubscription =
  base :: "ref option"
  queries :: "string \<rightharpoonup> ref"
  elinks :: "(string \<rightharpoonup> ref) option"
  count :: int

text \<open>What \<^verbatim>\<open>rs.e.cache.Errorf\<close> and \<^verbatim>\<open>rs.e.cache.deprecated\<close> write.\<close>

datatype LogEntry =
    ErrChangeOnCollection
  | ErrAddOnModel
  | ErrRemoveOnModel
  | ErrDecode error
  | ErrOutOfBounds int
  | DeprecatedModelChangeEvent

text \<open>
  All resource subscriptions here share one parent \<^verbatim>\<open>EventSubscription\<close>, the field
  \<open>es\<close>; a \<^verbatim>\<open>*ResourceSubscription\<close> is an address of \<open>rss\<close>, a \<^verbatim>\<open>*Model\<close> or
  \<^verbatim>\<open>*Collection\<close> an address of \<open>heap\<close>. Allocation appends to a store. The mutex
  \<^verbatim>\<open>rs.e.mu\<close> and the work queue are not modelled: each function below is one work
  item, run from its start to its end, and the calls it makes to subscribers are its
  output.
\<close>

record World =
  es :: EventSubscription
  rss :: "ResourceSubscription list"
  heap :: "Container list"
  errlog :: "LogEntry list"

text \<open>The calls made to subscribers, in order.\<close>

datatype Call =
    Loaded Subscriber "ref option" "error option"
  | EventCall Subscriber ResourceEvent
  | ReaccessCall Subscriber

definition newResourceSubscription :: "string \<Rightarrow> ResourceSubscription" where
  "newResourceSubscription q =
     \<lparr>query = q, state = stateSubscribed, subs = Some Dlist.empty, resetting = False,
      links = [], model = None, collection = None, err = None\<rparr>"

text \<open>\<^verbatim>\<open>for sub := range subs\<close> and \<^verbatim>\<open>len(subs)\<close>: a nil map has no entries.\<close>

definition subsList :: "Subscriber dlist option \<Rightarrow> Subscriber list" where
  "subsList s = (case s of None \<Rightarrow> [] | Some d \<Rightarrow> list_of_dlist d)"

definition logError :: "World \<Rightarrow> LogEntry \<Rightarrow> World" where
  "logError w l = w\<lparr>errlog := errlog w @ [l]\<rparr>"

definition modelValues :: "Container list \<Rightarrow> ref \<Rightarrow> (string \<rightharpoonup> Value) option" where
  "modelValues h a = (case nth_opt h a of Some (MkModel m) \<Rightarrow> Some m | _ \<Rightarrow> None)"

definition collectionValues :: "Container list \<Rightarrow> ref \<Rightarrow> Value list option" where
  "collectionValues h a = (case nth_opt h a of Some (MkCollection xs) \<Rightarrow> Some xs | _ \<Rightarrow> None)"

text \<open>
  Modelled from the spec: \<^verbatim>\<open>EventSubscription.removeCount\<close> is not in the sources. The
  spec describes a count of live subscribers that the parent decrements.
\<close>

definition removeCount :: "World \<Rightarrow> int \<Rightarrow> World" where
  "removeCount w n = w\<lparr>es := (es w)\<lparr>count := count (es w) - n\<rparr>\<rparr>"

text \<open>
  Modelled from the spec: \<^verbatim>\<open>EventSubscription.getResourceSubscription\<close> is not in the
  sources. The spec says it locates or creates the resource subscription of a query:
  \<^verbatim>\<open>base\<close> for the empty query, the entry of \<^verbatim>\<open>queries\<close> otherwise. A new one is made
  by \<^verbatim>\<open>newResourceSubscription\<close>, which is in the sources.
\<close>

definition getResourceSubscription :: "World \<Rightarrow> string \<Rightarrow> World \<times> ref" where
  "getResourceSubscription w q =
     (if q = [] then
        (case base (es w) of
           Some a \<Rightarrow> (w, a)
         | None \<Rightarrow>
             (w\<lparr>rss := rss w @ [newResourceSubscription q],
                es := (es w)\<lparr>base := Some (length (rss w))\<rparr>\<rparr>, length (rss w)))
      else
        (case queries (es w) q of
           Some a \<Rightarrow> (w, a)
         | None \<Rightarrow>
             (w\<lparr>rss := rss w @ [newResourceSubscription q],
                es := (es w)\<lparr>queries := (queries (es w))(q \<mapsto> length (rss w))\<rparr>\<rparr>,
              length (rss w))))"

section \<open>Unregistering and unsubscribing\<close>

text \<open>One step of the loop over \<^verbatim>\<open>rs.links\<close> in \<^verbatim>\<open>unregister\<close>; \<^verbatim>\<open>delete\<close> on a nil map does nothing.\<close>

definition unlink :: "string \<Rightarrow> EventSubscription \<Rightarrow> EventSubscription" where
  "unlink q e' =
     (if q = [] then e'\<lparr>base := None\<rparr>
      else e'\<lparr>elinks := map_option (\<lambda>l. l(q := None)) (elinks e')\<rparr>)"

definition unregister :: "World \<Rightarrow> ref \<Rightarrow> World option" where
  "unregister w p =
     do { rs \<leftarrow> nth_opt (rss w) p;
          let e1 = (if query rs = [] then (es w)\<lparr>base := None\<rparr>
                    else (es w)\<lparr>queries := (queries (es w))(query rs := None)\<rparr>);
          let e2 = fold unlink (links rs) e1;
          Some (w\<lparr>es := e2, rss := (rss w)[p := rs\<lparr>links := []\<rparr>]\<rparr>) }"

text \<open>
  The work item that \<^verbatim>\<open>Unsubscribe\<close> enqueues. The subscriber argument may be nil
  (\<open>None\<close>).
\<close>

definition Unsubscribe :: "World \<Rightarrow> ref \<Rightarrow> Subscriber option \<Rightarrow> World option" where
  "Unsubscribe w p sub =
     do { rs \<leftarrow> nth_opt (rss w) p;
          let w1 = (case sub of
                      None \<Rightarrow> w
                    | Some x \<Rightarrow>
                        w\<lparr>rss := (rss w)[p := rs\<lparr>subs := map_option (Dlist.remove x) (subs rs)\<rparr>]\<rparr>);
          rs1 \<leftarrow> nth_opt (rss w1) p;
          w2 \<leftarrow> (if query rs1 \<noteq> [] \<and> length (subsList (subs rs1)) = 0
                 then unregister w1 p else Some w1);
          Some (removeCount w2 1) }"

section \<open>Applying events\<close>

text \<open>Go's \<^verbatim>\<open>copy(dst, src)\<close>: the result is the new content of \<open>dst\<close>.\<close>

definition go_copy :: "'a list \<Rightarrow> 'a list \<Rightarrow> 'a list" where
  "go_copy dst src =
     take (min (length dst) (length src)) src @ drop (min (length dst) (length src)) dst"

text \<open>
  Lines 244--247 of \<^verbatim>\<open>handleEventAdd\<close>: \<^verbatim>\<open>make\<close>, the two \<^verbatim>\<open>copy\<close> calls (the second
  into \<^verbatim>\<open>col[idx+1:]\<close>) and the assignment of \<^verbatim>\<open>col[idx]\<close>.
\<close>

definition insertAt :: "Value list \<Rightarrow> nat \<Rightarrow> Value \<Rightarrow> Value list option" where
  "insertAt old idx v =
     do { let col = replicate (length old + 1) ZeroValue;
          lo \<leftarrow> slice_opt old 0 idx;
          let col1 = go_copy col lo;
          dst \<leftarrow> slice_opt col1 (idx + 1) (length col1);
          hi \<leftarrow> slice_opt old idx (length old);
          let col2 = take (idx + 1) col1 @ go_copy dst hi;
          upd_opt col2 idx v }"

text \<open>
  Lines 280--282 of \<^verbatim>\<open>handleEventRemove\<close>; \<^verbatim>\<open>make\<close> panics on the length \<open>-1\<close>.
\<close>

definition removeAt :: "Value list \<Rightarrow> nat \<Rightarrow> Value list option" where
  "removeAt old idx =
     (if length old = 0 then None
      else
        do { let col = replicate (length old - 1) ZeroValue;
             lo \<leftarrow> slice_opt old 0 idx;
             let col1 = go_copy col lo;
             dst \<leftarrow> slice_opt col1 idx (length col1);
             hi \<leftarrow> slice_opt old (idx + 1) (length old);
             Some (take idx col1 @ go_copy dst hi) })"

definition IsLegacyChangeEvent :: "Payload \<Rightarrow> bool" where
  "IsLegacyChangeEvent p = (case p of LegacyChangePayload _ \<Rightarrow> True | _ \<Rightarrow> False)"

definition DecodeLegacyChangeEvent :: "Payload \<Rightarrow> Props \<times> error option" where
  "DecodeLegacyChangeEvent p =
     (case p of LegacyChangePayload ps \<Rightarrow> (ps, None)
      | _ \<Rightarrow> ([], Some (ProtocolDecode ''change'')))"

definition DecodeChangeEvent :: "Payload \<Rightarrow> Props \<times> error option" where
  "DecodeChangeEvent p =
     (case p of ChangePayload ps \<Rightarrow> (ps, None)
      | _ \<Rightarrow> ([], Some (ProtocolDecode ''change'')))"

definition DecodeGetResponse :: "Payload \<Rightarrow> error + GetResult" where
  "DecodeGetResponse p =
     (case p of GetResponse g \<Rightarrow> Inr g | ErrorResponse e' \<Rightarrow> Inl e'
      | _ \<Rightarrow> Inl (ProtocolDecode ''get''))"

text \<open>\<^verbatim>\<open>m[k]\<close> on a Go map: the zero value for an absent key.\<close>

definition mapGet :: "(string \<rightharpoonup> Value) \<Rightarrow> string \<Rightarrow> Value" where
  "mapGet m k = (case m k of None \<Rightarrow> ZeroValue | Some v \<Rightarrow> v)"

text \<open>\<^verbatim>\<open>delete(props, k)\<close> on the decoded map.\<close>

definition deleteKey :: "string \<Rightarrow> Props \<Rightarrow> Props" where
  "deleteKey k ps = filter (\<lambda>kv. fst kv \<noteq> k) ps"

text \<open>
  The loop \<^verbatim>\<open>for k, v := range props\<close> of \<^verbatim>\<open>handleEventChange\<close>. The first argument
  is the entries still to visit, \<open>m\<close> the clone of the model and \<open>props\<close> the decoded
  map, from which the loop deletes the entry it is visiting.
\<close>

fun updateModel ::
  "Props \<Rightarrow> (string \<rightharpoonup> Value) \<Rightarrow> Props \<Rightarrow> (string \<rightharpoonup> Value) \<times> Props" where
  "updateModel [] m props = (m, props)"
| "updateModel ((k, v) # rest) m props =
     (if isDelete v then
        (if m k \<noteq> None then updateModel rest (m(k := None)) props
         else updateModel rest m (deleteKey k props))
      else
        (if Equal (mapGet m k) v then updateModel rest m (deleteKey k props)
         else updateModel rest (m(k \<mapsto> v)) props))"

definition handleEventChange ::
  "World \<Rightarrow> ref \<Rightarrow> ResourceEvent \<Rightarrow> (World \<times> ResourceEvent \<times> bool) option" where
  "handleEventChange w p r =
     do { rs \<leftarrow> nth_opt (rss w) p;
          if state rs = stateCollection then Some (logError w ErrChangeOnCollection, r, False)
          else
            do { let w1 = (if IsLegacyChangeEvent (Payload r)
                           then logError w DeprecatedModelChangeEvent else w);
                 let (props, derr) = (if IsLegacyChangeEvent (Payload r)
                                      then DecodeLegacyChangeEvent (Payload r)
                                      else DecodeChangeEvent (Payload r));
                 let w2 = (case derr of None \<Rightarrow> w1 | Some e' \<Rightarrow> logError w1 (ErrDecode e'));
                 mp \<leftarrow> model rs;
                 old \<leftarrow> modelValues (heap w2) mp;
                 let (m, props') = updateModel props old props;
                 if length props' = 0 then Some (w2, r, False)
                 else Some (w2\<lparr>heap := heap w2 @ [MkModel m],
                               rss := (rss w2)[p := rs\<lparr>model := Some (length (heap w2))\<rparr>]\<rparr>,
                            r\<lparr>Changed := props', OldValues := Some mp\<rparr>, True) } }"

definition handleEventAdd ::
  "World \<Rightarrow> ref \<Rightarrow> ResourceEvent \<Rightarrow> (World \<times> ResourceEvent \<times> bool) option" where
  "handleEventAdd w p r =
     do { rs \<leftarrow> nth_opt (rss w) p;
          if state rs = stateModel then Some (logError w ErrAddOnModel, r, False)
          else
            (case DecodeAddEvent (Payload r) of
               Inl e' \<Rightarrow> Some (logError w (ErrDecode e'), r, False)
             | Inr (idx, v) \<Rightarrow>
                 do { cp \<leftarrow> collection rs;
                      old \<leftarrow> collectionValues (heap w) cp;
                      if idx < 0 \<or> idx > int (length old)
                      then Some (logError w (ErrOutOfBounds idx), r, False)
                      else
                        do { col \<leftarrow> insertAt old (nat idx) v;
                             Some (w\<lparr>heap := heap w @ [MkCollection col],
                                     rss := (rss w)[p := rs\<lparr>collection := Some (length (heap w))\<rparr>]\<rparr>,
                                   r\<lparr>Idx := idx, Value := v\<rparr>, True) } }) }"

definition handleEventRemove ::
  "World \<Rightarrow> ref \<Rightarrow> ResourceEvent \<Rightarrow> (World \<times> ResourceEvent \<times> bool) option" where
  "handleEventRemove w p r =
     do { rs \<leftarrow> nth_opt (rss w) p;
          if state rs = stateModel then Some (logError w ErrRemoveOnModel, r, False)
          else
            (case DecodeRemoveEvent (Payload r) of
               Inl e' \<Rightarrow> Some (logError w (ErrDecode e'), r, False)
             | Inr idx \<Rightarrow>
                 do { cp \<leftarrow> collection rs;
                      old \<leftarrow> collectionValues (heap w) cp;
                      if idx < 0 \<or> idx \<ge> int (length old)
                      then Some (logError w (ErrOutOfBounds idx), r, False)
                      else
                        do { x \<leftarrow> nth_opt old (nat idx);
                             col \<leftarrow> removeAt old (nat idx);
                             Some (w\<lparr>heap := heap w @ [MkCollection col],
                                     rss := (rss w)[p := rs\<lparr>collection := Some (length (heap w))\<rparr>]\<rparr>,
                                   r\<lparr>Value := x, Idx := idx\<rparr>, True) } }) }"

definition handleEventDelete ::
  "World \<Rightarrow> ref \<Rightarrow> ResourceEvent \<Rightarrow> (World \<times> Call list) option" where
  "handleEventDelete w p r =
     do { rs \<leftarrow> nth_opt (rss w) p;
          let subs0 = subsList (subs rs);
          let c = int (length subs0);
          w2 \<leftarrow> unregister (w\<lparr>rss := (rss w)[p := rs\<lparr>subs := None\<rparr>]\<rparr>) p;
          Some (removeCount w2 c, map (\<lambda>s. EventCall s r) subs0) }"

text \<open>The tail of \<^verbatim>\<open>handleEvent\<close>: every subscriber gets \<^verbatim>\<open>sub.Event(r)\<close>.\<close>

definition notifySubs :: "World \<Rightarrow> ref \<Rightarrow> ResourceEvent \<Rightarrow> (World \<times> ResourceEvent \<times> Call list) option" where
  "notifySubs w p r =
     do { rs \<leftarrow> nth_opt (rss w) p;
          Some (w, r, map (\<lambda>s. EventCall s r) (subsList (subs rs))) }"

definition handleEvent ::
  "World \<Rightarrow> ref \<Rightarrow> ResourceEvent \<Rightarrow> (World \<times> ResourceEvent \<times> Call list) option" where
  "handleEvent w p r =
     do { rs \<leftarrow> nth_opt (rss w) p;
          if stateByte (state rs) \<le> stateByte stateRequested \<and> Event r \<noteq> ''reaccess''
          then Some (w, r, [])
          else if Event r = ''change'' then
            (if resetting rs then Some (w, r, [])
             else do { (w', r', ok) \<leftarrow> handleEventChange w p r;
                       if \<not> ok then Some (w', r', []) else notifySubs w' p r' })
          else if Event r = ''add'' then
            (if resetting rs then Some (w, r, [])
             else do { (w', r', ok) \<leftarrow> handleEventAdd w p r;
                       if \<not> ok then Some (w', r', []) else notifySubs w' p r' })
          else if Event r = ''remove'' then
            (if resetting rs then Some (w, r, [])
             else do { (w', r', ok) \<leftarrow> handleEventRemove w p r;
                       if \<not> ok then Some (w', r', []) else notifySubs w' p r' })
          else if Event r = ''delete'' then
            (if \<not> resetting rs
             then do { (w', calls) \<leftarrow> handleEventDelete w p r; Some (w', r, calls) }
             else Some (w, r, []))
          else notifySubs w p r }"

section \<open>The get response\<close>

text \<open>
  \<^verbatim>\<open>for sub := range rs.subs { nrs.subs[sub] = struct{}{} }\<close>: an assignment into a nil
  map panics.
\<close>

fun copySubs :: "Subscriber list \<Rightarrow> World \<Rightarrow> ref \<Rightarrow> World option" where
  "copySubs [] w np = Some w"
| "copySubs (s # ss) w np =
     do { nrs \<leftarrow> nth_opt (rss w) np;
          d \<leftarrow> subs nrs;
          copySubs ss (w\<lparr>rss := (rss w)[np := nrs\<lparr>subs := Some (Dlist.insert s d)\<rparr>]\<rparr>) np }"

text \<open>The branch \<^verbatim>\<open>result.Query != rs.query\<close> of \<^verbatim>\<open>processGetResponse\<close>.\<close>

definition linkNormalized :: "World \<Rightarrow> ref \<Rightarrow> string \<Rightarrow> (World \<times> ref) option" where
  "linkNormalized w p q =
     (case getResourceSubscription w q of
        (w1, np) \<Rightarrow>
          do { rs \<leftarrow> nth_opt (rss w1) p;
               let e1 = (if query rs = [] then (es w1)\<lparr>base := Some np\<rparr>
                         else (es w1)\<lparr>elinks :=
                                  Some ((case elinks (es w1) of None \<Rightarrow> Map.empty | Some l \<Rightarrow> l)
                                          (query rs \<mapsto> np)),
                                queries := (queries (es w1))(query rs := None)\<rparr>);
               let w2 = w1\<lparr>es := e1\<rparr>;
               nrs \<leftarrow> nth_opt (rss w2) np;
               let w3 = w2\<lparr>rss := (rss w2)[np := nrs\<lparr>links := links nrs @ [query rs]\<rparr>]\<rparr>;
               rs3 \<leftarrow> nth_opt (rss w3) p;
               w4 \<leftarrow> copySubs (subsList (subs rs3)) w3 np;
               Some (w4, np) })"

definition processGetResponse ::
  "World \<Rightarrow> ref \<Rightarrow> Payload \<Rightarrow> error option \<Rightarrow> (World \<times> ref \<times> Subscriber list) option" where
  "processGetResponse w p payload err0 =
     (case (case err0 of None \<Rightarrow> DecodeGetResponse payload | Some e' \<Rightarrow> Inl e') of
        Inl e' \<Rightarrow>
          do { rs \<leftarrow> nth_opt (rss w) p;
               let sublist = subsList (subs rs);
               let c = int (length sublist);
               w3 \<leftarrow> unregister
                       (w\<lparr>rss := (rss w)[p := rs\<lparr>state := stateError, err := Some e',
                                                subs := None\<rparr>]\<rparr>) p;
               Some (removeCount w3 c, p, sublist) }
      | Inr result \<Rightarrow>
          do { rs \<leftarrow> nth_opt (rss w) p;
               (w1, np) \<leftarrow> (if Query result \<noteq> query rs
                             then linkNormalized w p (Query result) else Some (w, p));
               rs1 \<leftarrow> nth_opt (rss w1) p;
               let sublist = subsList (subs rs1);
               nrs \<leftarrow> nth_opt (rss w1) np;
               if stateByte (state nrs) > stateByte stateRequested then Some (w1, np, sublist)
               else
                 (case Model result of
                    Some m \<Rightarrow>
                      Some (w1\<lparr>heap := heap w1 @ [MkModel (map_of m)],
                               rss := (rss w1)[np := nrs\<lparr>model := Some (length (heap w1)),
                                                         state := stateModel\<rparr>]\<rparr>,
                            np, sublist)
                  | None \<Rightarrow>
                      Some (w1\<lparr>heap := heap w1 @ [MkCollection (Collection result)],
                               rss := (rss w1)[np := nrs\<lparr>collection := Some (length (heap w1)),
                                                         state := stateCollection\<rparr>]\<rparr>,
                            np, sublist)) })"

text \<open>
  The work item of \<^verbatim>\<open>enqueueGetResponse\<close>; inside it \<^verbatim>\<open>rs\<close> is rebound to the returned
  subscription.
\<close>

definition enqueueGetResponse ::
  "World \<Rightarrow> ref \<Rightarrow> Payload \<Rightarrow> error option \<Rightarrow> (World \<times> Call list) option" where
  "enqueueGetResponse w p payload err0 =
     do { (w', np, sublist) \<leftarrow> processGetResponse w p payload err0;
          nrs \<leftarrow> nth_opt (rss w') np;
          if state nrs = stateError
          then Some (w', map (\<lambda>s. Loaded s None (err nrs)) sublist)
          else Some (w', map (\<lambda>s. Loaded s (Some np) None) sublist) }"

section \<open>Specification notions for the diff engine\<close>

text \<open>
  The length of a longest common subsequence, by the textbook recursion. The lemmas
  \<open>LCS_length_attained\<close> and \<open>LCS_length_upper\<close> below show that it is the greatest length
  of a list that is a subsequence of both arguments.
\<close>

fun LCS_length :: "'a list \<Rightarrow> 'a list \<Rightarrow> nat" where
  "LCS_length [] ys = 0"
| "LCS_length (x # xs) [] = 0"
| "LCS_length (x # xs) (y # ys) =
     (if x = y then Suc (LCS_length xs ys)
      else max (LCS_length (x # xs) ys) (LCS_length xs (y # ys)))"


text \<open>
  Applying an event to a collection, as \<^verbatim>\<open>handleEventAdd\<close> and
  \<^verbatim>\<open>handleEventRemove\<close> do it: decode the payload, check the bounds, splice. \<open>None\<close>
  means that the event is rejected.
\<close>

definition applyEvent :: "Value list \<Rightarrow> ResourceEvent \<Rightarrow> Value list option" where
  "applyEvent xs r =
     (if Event r = ''add'' then
        (case DecodeAddEvent (Payload r) of
           Inl _ \<Rightarrow> None
         | Inr (idx, v) \<Rightarrow>
             if idx < 0 \<or> idx > int (length xs) then None else insertAt xs (nat idx) v)
      else if Event r = ''remove'' then
        (case DecodeRemoveEvent (Payload r) of
           Inl _ \<Rightarrow> None
         | Inr idx \<Rightarrow>
             if idx < 0 \<or> idx \<ge> int (length xs) then None else removeAt xs (nat idx))
      else None)"

fun applyEvents :: "Value list \<Rightarrow> ResourceEvent list \<Rightarrow> Value list option" where
  "applyEvents xs [] = Some xs"
| "applyEvents xs (r # rs) = do { ys \<leftarrow> applyEvent xs r; applyEvents ys rs }"



text \<open>The two kinds of events that \<^verbatim>\<open>lcs\<close> builds.\<close>

definition remEv :: "nat \<Rightarrow> ResourceEvent" where
  "remEv k = newEvent ''remove'' (EncodeRemoveEvent (int k))"

definition addEv :: "nat \<Rightarrow> Value \<Rightarrow> ResourceEvent" where
  "addEv k v = newEvent ''add'' (EncodeAddEvent v (int k))"

text \<open>
  Entry \<open>(i, j)\<close> of the matrix: the code fills it from the fronts of the two lists, so
  it is the length for the reversed prefixes.
\<close>

definition LCS_entry :: "Value list \<Rightarrow> Value list \<Rightarrow> nat \<Rightarrow> nat \<Rightarrow> nat" where
  "LCS_entry aa bb i j = LCS_length (rev (take i aa)) (rev (take j bb))"


text \<open>
  The invariant of the two loops that fill the matrix: the border, the rows up to \<open>i\<close>
  and the first \<open>j\<close> cells of the next row are correct.
\<close>

definition filled :: "Value list \<Rightarrow> Value list \<Rightarrow> nat list \<Rightarrow> nat \<Rightarrow> nat \<Rightarrow> bool" where
  "filled aa bb c i j \<longleftrightarrow>
     length c = Suc (length aa) * Suc (length bb) \<and>
     (\<forall>i' j'. i' \<le> length aa \<and> j' \<le> length bb \<and>
        (i' = 0 \<or> j' = 0 \<or> i' \<le> i \<or> (i' = Suc i \<and> j' \<le> j)) \<longrightarrow>
        c ! (i' + Suc (length aa) * j') = LCS_entry aa bb i' j')"

text \<open>
  What a run of the backtracking loop from cell \<open>(i, j)\<close> yields: removes at the
  positions \<open>R\<close>, add records \<open>A\<close>, and the kept elements \<open>K\<close>.
\<close>

definition addRecEv :: "nat \<Rightarrow> Value list \<Rightarrow> addRec \<Rightarrow> ResourceEvent" where
  "addRecEv s bb a = addEv (s + fst a) (bb ! fst a)"

definition walk_ok ::
  "nat \<Rightarrow> Value list \<Rightarrow> Value list \<Rightarrow> nat \<Rightarrow> nat \<Rightarrow> nat \<Rightarrow> nat list \<Rightarrow> addRec list \<Rightarrow> Value list \<Rightarrow> bool" where
  "walk_ok s aa bb i j r R A K \<longleftrightarrow>
     (\<forall>pre X. length pre = s \<longrightarrow>
        applyEvents (pre @ take i aa @ X) (map remEv R) = Some (pre @ K @ X)) \<and>
     (\<forall>pre X. length pre = s \<longrightarrow>
        applyEvents (pre @ K @ X) (rev (map (addRecEv s bb) A)) = Some (pre @ take j bb @ X)) \<and>
     (\<forall>k < length A. fst (A ! k) < length bb \<and>
        fst (snd (A ! k)) + snd (snd (A ! k)) + (length A - 1 - k)
          = s + fst (A ! k) + r + length R) \<and>
     i + length A = j + length R \<and>
     length R + LCS_entry aa bb i j = i"


section \<open>Specification notions for the cache\<close>

text \<open>
  The registry after \<^verbatim>\<open>unregister\<close> of a subscription with query \<open>q\<close> and links
  \<open>ls\<close>: the lemma \<open>unregister_eq\<close> below shows that the code computes it.
\<close>

definition unregistered :: "EventSubscription \<Rightarrow> string \<Rightarrow> string list \<Rightarrow> EventSubscription" where
  "unregistered e0 q ls =
     \<lparr>base = (if q = [] \<or> [] \<in> set ls then None else base e0),
      queries = (if q = [] then queries e0 else (queries e0)(q := None)),
      elinks = map_option (\<lambda>l q'. if q' \<in> set ls \<and> q' \<noteq> [] then None else l q') (elinks e0),
      count = count e0\<rparr>"

text \<open>
  The subscription with query \<open>q\<close> and links \<open>ls\<close> is no longer reachable through the
  registry \<open>e'\<close>: neither under its own query nor under any of its links.
\<close>

definition registryCleared :: "EventSubscription \<Rightarrow> string \<Rightarrow> string list \<Rightarrow> bool" where
  "registryCleared e' q ls \<longleftrightarrow>
     (if q = [] then base e' = None else queries e' q = None) \<and>
     list_all (\<lambda>q'. if q' = [] then base e' = None
                     else (case elinks e' of None \<Rightarrow> True | Some l \<Rightarrow> l q' = None)) ls"

text \<open>
  Replacing the collection, or the model, of the subscription at \<open>p\<close> by a newly allocated
  container: the store grows by one cell and only the pointer of the subscription changes.
\<close>

definition installCollection :: "World \<Rightarrow> ref \<Rightarrow> Value list \<Rightarrow> World" where
  "installCollection w p col =
     w\<lparr>heap := heap w @ [MkCollection col],
       rss := (rss w)[p := (rss w ! p)\<lparr>collection := Some (length (heap w))\<rparr>]\<rparr>"

definition installModel :: "World \<Rightarrow> ref \<Rightarrow> (string \<rightharpoonup> Value) \<Rightarrow> World" where
  "installModel w p m =
     w\<lparr>heap := heap w @ [MkModel m],
       rss := (rss w)[p := (rss w ! p)\<lparr>model := Some (length (heap w))\<rparr>]\<rparr>"

text \<open>
  An entry of a change event that changes nothing: a Delete sentinel for an absent key, or
  a value equal to the current one (\<^verbatim>\<open>m[k].Equal(v)\<close>, where \<^verbatim>\<open>m[k]\<close> of an absent key
  is the zero value, which no decoded value equals).
\<close>

definition noopEntry :: "(string \<rightharpoonup> Value) \<Rightarrow> string \<times> Value \<Rightarrow> bool" where
  "noopEntry m kv =
     (if snd kv = DeleteValue then m (fst kv) = None else mapGet m (fst kv) = snd kv)"

text \<open>
  The model after a change event: keys with a Delete sentinel are removed, unequal
  entries are stored, everything else is kept.
\<close>

definition changedModel :: "(string \<rightharpoonup> Value) \<Rightarrow> Props \<Rightarrow> (string \<rightharpoonup> Value)" where
  "changedModel m props =
     (\<lambda>k. case map_of props k of
            None \<Rightarrow> m k
          | Some v \<Rightarrow> if v = DeleteValue then None
                      else if mapGet m k = v then m k else Some v)"

text \<open>A sequence of events dispatched to the subscription at \<open>p\<close>, in order.\<close>

fun handleEvents :: "World \<Rightarrow> ref \<Rightarrow> ResourceEvent list \<Rightarrow> (World \<times> Call list) option" where
  "handleEvents w p [] = Some (w, [])"
| "handleEvents w p (r # rs) =
     do { (w', r', calls) \<leftarrow> handleEvent w p r;
          (w'', calls') \<leftarrow> handleEvents w' p rs;
          Some (w'', calls @ calls') }"

text \<open>
  A loaded subscription points to a container of its kind: \<^verbatim>\<open>processGetResponse\<close> sets
  the state and the pointer together.
\<close>

definition loadedOk :: "World \<Rightarrow> ref \<Rightarrow> bool" where
  "loadedOk w p \<longleftrightarrow>
     p < length (rss w) \<and>
     (if state (rss w ! p) = stateModel then
        (case model (rss w ! p) of
           None \<Rightarrow> False
         | Some a \<Rightarrow> (case modelValues (heap w) a of None \<Rightarrow> False | Some _ \<Rightarrow> True))
      else if state (rss w ! p) = stateCollection then
        (case collection (rss w ! p) of
           None \<Rightarrow> False
         | Some a \<Rightarrow> (case collectionValues (heap w) a of None \<Rightarrow> False | Some _ \<Rightarrow> True))
      else True)"

text \<open>A pointer is unchanged or points to a cell allocated at or after \<open>n\<close>.\<close>

definition freshOrSame :: "ref option \<Rightarrow> ref option \<Rightarrow> nat \<Rightarrow> bool" where
  "freshOrSame old new n \<longleftrightarrow> new = old \<or> (case new of None \<Rightarrow> False | Some a \<Rightarrow> n \<le> a)"

text \<open>
  The relation between the worlds before and after events for the subscription at \<open>p\<close>:
  the old store is a prefix of the new one.
\<close>

definition grows :: "World \<Rightarrow> World \<Rightarrow> ref \<Rightarrow> bool" where
  "grows w w' p \<longleftrightarrow>
     prefix (heap w) (heap w') \<and>
     loadedOk w' p \<and>
     freshOrSame (model (rss w ! p)) (model (rss w' ! p)) (length (heap w)) \<and>
     freshOrSame (collection (rss w ! p)) (collection (rss w' ! p)) (length (heap w))"

section \<open>Example states\<close>

text \<open>
  A query subscription waiting for its get response, with the subscribers 1 and 2; the
  model \<open>{a: 1, b: 2}\<close> of scenario S1, also while resetting; the collection
  \<open>[X, Y, Z]\<close> of scenario S2; a loaded query subscription without subscribers that has
  one link; and a get response whose normalized query differs from the requested one.
\<close>

definition exRequested :: World where
  "exRequested =
     \<lparr>es = \<lparr>base = None, queries = [''b=2&a=1'' \<mapsto> 0], elinks = None, count = 2\<rparr>,
      rss = [(newResourceSubscription ''b=2&a=1'')
               \<lparr>state := stateRequested, subs := Some (Dlist [1, 2])\<rparr>],
      heap = [], errlog = []\<rparr>"

definition exModel :: World where
  "exModel =
     \<lparr>es = \<lparr>base = Some 0, queries = Map.empty, elinks = None, count = 2\<rparr>,
      rss = [(newResourceSubscription [])
               \<lparr>state := stateModel, subs := Some (Dlist [1, 2]), model := Some 0\<rparr>],
      heap = [MkModel [''a'' \<mapsto> Primitive ''1'', ''b'' \<mapsto> Primitive ''2'']],
      errlog = []\<rparr>"

definition exResetting :: World where
  "exResetting = exModel\<lparr>rss := [(rss exModel ! 0)\<lparr>resetting := True\<rparr>]\<rparr>"

definition exCollection :: World where
  "exCollection =
     \<lparr>es = \<lparr>base = Some 0, queries = Map.empty, elinks = None, count = 1\<rparr>,
      rss = [(newResourceSubscription [])
               \<lparr>state := stateCollection, subs := Some (Dlist [1]), collection := Some 0\<rparr>],
      heap = [MkCollection [Primitive ''X'', Primitive ''Y'', Primitive ''Z'']],
      errlog = []\<rparr>"

definition exIdle :: World where
  "exIdle =
     \<lparr>es = \<lparr>base = None, queries = [''a=1'' \<mapsto> 0], elinks = Some [''1=a'' \<mapsto> 0], count = 1\<rparr>,
      rss = [(newResourceSubscription ''a=1'')\<lparr>state := stateModel, links := [''1=a'']\<rparr>],
      heap = [], errlog = []\<rparr>"

definition exNormalized :: Payload where
  "exNormalized =
     GetResponse \<lparr>Model = Some [(''x'', Primitive ''1'')], Collection = [], Query = ''a=1&b=2''\<rparr>"

declare trimStart.simps [simp del] trimEnd.simps [simp del] lcsInner.simps [simp del]
  lcsOuter.simps [simp del] backtrack.simps [simp del]


section \<open>Longest common subsequences\<close>

lemma LCS_length_Nil2 [simp]: "LCS_length xs [] = 0"
  by (cases xs) auto

lemma LCS_length_attained:
  "\<exists>zs. subseq zs xs \<and> subseq zs ys \<and> length zs = LCS_length xs ys"
proof (induction xs ys rule: LCS_length.induct)
  case (1 ys)
  then show ?case by auto
next
  case (2 x xs)
  then show ?case by auto
next
  case (3 x xs y ys)
  show ?case
  proof (cases "x = y")
    case True
    with 3 obtain zs where "subseq zs xs" "subseq zs ys" "length zs = LCS_length xs ys"
      by auto
    then have "subseq (x # zs) (x # xs) \<and> subseq (x # zs) (y # ys)
        \<and> length (x # zs) = LCS_length (x # xs) (y # ys)"
      using True by simp
    then show ?thesis by blast
  next
    case False
    show ?thesis
    proof (cases "LCS_length (x # xs) ys \<ge> LCS_length xs (y # ys)")
      case True
      from 3(2)[OF False] obtain zs where
        "subseq zs (x # xs)" "subseq zs ys" "length zs = LCS_length (x # xs) ys" by auto
      then have "subseq zs (x # xs) \<and> subseq zs (y # ys)
        \<and> length zs = LCS_length (x # xs) (y # ys)"
        using False True by (auto simp: max_def intro: list_emb_Cons)
      then show ?thesis by blast
    next
      case F: False
      from 3(3)[OF False] obtain zs where
        "subseq zs xs" "subseq zs (y # ys)" "length zs = LCS_length xs (y # ys)" by auto
      then have "subseq zs (x # xs) \<and> subseq zs (y # ys)
        \<and> length zs = LCS_length (x # xs) (y # ys)"
        using False F by (auto simp: max_def intro: list_emb_Cons)
      then show ?thesis by blast
    qed
  qed
qed

lemma LCS_length_upper:
  "subseq zs xs \<Longrightarrow> subseq zs ys \<Longrightarrow> length zs \<le> LCS_length xs ys"
proof (induction xs ys arbitrary: zs rule: LCS_length.induct)
  case (1 ys)
  then show ?case by simp
next
  case (2 x xs)
  then show ?case by simp
next
  case (3 x xs y ys)
  show ?case
  proof (cases zs)
    case Nil
    then show ?thesis by simp
  next
    case (Cons z zs')
    show ?thesis
    proof (cases "x = y")
      case True
      have "subseq zs' xs" "subseq zs' ys"
        using "3.prems" Cons True by (auto split: if_splits dest: subseq_Cons')
      then have "length zs' \<le> LCS_length xs ys"
        using "3.IH"(1)[OF True] by blast
      then show ?thesis using Cons True by simp
    next
      case False
      show ?thesis
      proof (cases "z = x")
        case True
        then have "subseq zs ys" using "3.prems"(2) Cons False by (auto split: if_splits)
        then have "length zs \<le> LCS_length (x # xs) ys"
          using "3.IH"(2)[OF False "3.prems"(1)] by blast
        then show ?thesis using False by simp
      next
        case F: False
        then have "subseq zs xs" using "3.prems"(1) Cons by (auto split: if_splits)
        then have "length zs \<le> LCS_length xs (y # ys)"
          using "3.IH"(3)[OF False _ "3.prems"(2)] by blast
        then show ?thesis using False by simp
      qed
    qed
  qed
qed

lemma subseq_rev: "subseq xs ys \<Longrightarrow> subseq (rev xs) (rev ys)"
proof (induction rule: list_emb.induct)
  case (list_emb_Nil ys)
  then show ?case by simp
next
  case (list_emb_Cons xs ys y)
  then show ?case by (simp add: subseq_rev_drop_many)
next
  case (list_emb_Cons2 x y xs ys)
  then show ?case by (simp add: list_emb_append_mono)
qed

lemma LCS_length_rev_le: "LCS_length xs ys \<le> LCS_length (rev xs) (rev ys)"
proof -
  obtain zs where "subseq zs xs" "subseq zs ys" "length zs = LCS_length xs ys"
    using LCS_length_attained by blast
  then show ?thesis
    using LCS_length_upper[of "rev zs" "rev xs" "rev ys"] subseq_rev by fastforce
qed

lemma LCS_length_rev: "LCS_length (rev xs) (rev ys) = LCS_length xs ys"
  using LCS_length_rev_le[of xs ys] LCS_length_rev_le[of "rev xs" "rev ys"] by simp

lemma LCS_length_prefix: "LCS_length (p @ xs) (p @ ys) = length p + LCS_length xs ys"
  by (induction p) auto

lemma LCS_length_suffix: "LCS_length (xs @ q) (ys @ q) = LCS_length xs ys + length q"
proof -
  have "LCS_length (xs @ q) (ys @ q) = LCS_length (rev q @ rev xs) (rev q @ rev ys)"
    using LCS_length_rev[of "xs @ q" "ys @ q"] by simp
  also have "\<dots> = length q + LCS_length (rev xs) (rev ys)"
    by (simp add: LCS_length_prefix)
  finally show ?thesis by (simp add: LCS_length_rev)
qed

lemma LCS_length_same: "LCS_length xs xs = length xs"
  by (induction xs) auto

lemma LCS_length_le: "LCS_length xs ys \<le> length xs" "LCS_length xs ys \<le> length ys"
proof -
  obtain zs where "subseq zs xs" "subseq zs ys" "length zs = LCS_length xs ys"
    using LCS_length_attained by blast
  then show "LCS_length xs ys \<le> length xs" "LCS_length xs ys \<le> length ys"
    using list_emb_length by fastforce+
qed

section \<open>Checked access and the trimming loops\<close>

lemma nth_opt_Some [simp]: "i < length xs \<Longrightarrow> nth_opt xs i = Some (xs ! i)"
  by (simp add: nth_opt_def)

lemma upd_opt_Some [simp]: "i < length xs \<Longrightarrow> upd_opt xs i v = Some (xs[i := v])"
  by (simp add: upd_opt_def)

lemma trimStart_spec:
  "s \<le> length a \<Longrightarrow> s \<le> length b \<Longrightarrow> take s a = take s b \<Longrightarrow>
   \<exists>s'. trimStart a b s = Some s' \<and> s \<le> s' \<and> s' \<le> length a \<and> s' \<le> length b
        \<and> take s' a = take s' b \<and> \<not> (s' < length a \<and> s' < length b \<and> a ! s' = b ! s')"
proof (induction a b s rule: trimStart.induct)
  case (1 a b s)
  show ?case
  proof (cases "s < length a \<and> s < length b \<and> a ! s = b ! s")
    case True
    have t: "take (s + 1) a = take (s + 1) b"
      using True "1.prems"(3) by (simp add: take_Suc_conv_app_nth)
    have "\<exists>s'. trimStart a b (s + 1) = Some s' \<and> s + 1 \<le> s' \<and> s' \<le> length a \<and> s' \<le> length b
        \<and> take s' a = take s' b \<and> \<not> (s' < length a \<and> s' < length b \<and> a ! s' = b ! s')"
    proof (rule "1.IH"[of "a ! s" "b ! s"])
      show "s < length a \<and> s < length b" using True by simp
      show "nth_opt a s = Some (a ! s)" using True by simp
      show "nth_opt b s = Some (b ! s)" using True by simp
      show "Equal (a ! s) (b ! s)" using True by (simp add: Equal_def)
      show "s + 1 \<le> length a" "s + 1 \<le> length b" using True by auto
      show "take (s + 1) a = take (s + 1) b" by (rule t)
    qed
    then obtain s' where r: "trimStart a b (s + 1) = Some s'" "s + 1 \<le> s'" "s' \<le> length a"
      "s' \<le> length b" "take s' a = take s' b"
      "\<not> (s' < length a \<and> s' < length b \<and> a ! s' = b ! s')"
      by blast
    have "trimStart a b s = Some s'"
      using True r(1) by (subst trimStart.simps) (simp add: Equal_def)
    then show ?thesis using r by auto
  next
    case False
    then have "trimStart a b s = Some s"
      by (subst trimStart.simps) (auto simp: Equal_def nth_opt_def)
    then show ?thesis using False "1.prems" by auto
  qed
qed

lemma trimEnd_spec:
  "s \<le> m \<Longrightarrow> m \<le> length a \<Longrightarrow> s \<le> n \<Longrightarrow> n \<le> length b \<Longrightarrow> drop m a = drop n b \<Longrightarrow>
   \<exists>m' n'. trimEnd a b s m n = Some (m', n') \<and> s \<le> m' \<and> m' \<le> m \<and> s \<le> n' \<and> n' \<le> n
        \<and> drop m' a = drop n' b"
proof (induction a b s m n rule: trimEnd.induct)
  case (1 a b s m n)
  show ?case
  proof (cases "s < m \<and> s < n \<and> a ! (m - 1) = b ! (n - 1)")
    case True
    have lt: "m - 1 < length a" "n - 1 < length b" using True "1.prems" by auto
    have "drop (m - 1) a = a ! (m - 1) # drop m a" "drop (n - 1) b = b ! (n - 1) # drop n b"
      using Cons_nth_drop_Suc[OF lt(1)] Cons_nth_drop_Suc[OF lt(2)] True by auto
    then have d: "drop (m - 1) a = drop (n - 1) b"
      using True "1.prems"(5) by simp
    have "\<exists>m' n'. trimEnd a b s (m - 1) (n - 1) = Some (m', n') \<and> s \<le> m' \<and> m' \<le> m - 1
        \<and> s \<le> n' \<and> n' \<le> n - 1 \<and> drop m' a = drop n' b"
    proof (rule "1.IH"[of "a ! (m - 1)" "b ! (n - 1)"])
      show "s < m \<and> s < n" using True by simp
      show "nth_opt a (m - 1) = Some (a ! (m - 1))" using lt by simp
      show "nth_opt b (n - 1) = Some (b ! (n - 1))" using lt by simp
      show "Equal (a ! (m - 1)) (b ! (n - 1))" using True by (simp add: Equal_def)
      show "s \<le> m - 1" "s \<le> n - 1" using True by auto
      show "m - 1 \<le> length a" "n - 1 \<le> length b" using lt by auto
      show "drop (m - 1) a = drop (n - 1) b" by (rule d)
    qed
    then obtain m' n' where r: "trimEnd a b s (m - 1) (n - 1) = Some (m', n')" "s \<le> m'"
      "m' \<le> m - 1" "s \<le> n'" "n' \<le> n - 1" "drop m' a = drop n' b"
      by blast
    have "trimEnd a b s m n = Some (m', n')"
      using True lt r(1) by (subst trimEnd.simps) (simp add: Equal_def)
    then show ?thesis using r by auto
  next
    case False
    then show ?thesis
      using "1.prems" by (subst trimEnd.simps) (auto simp: Equal_def nth_opt_def)
  qed
qed

lemma LCS_entry_0 [simp]: "LCS_entry aa bb 0 j = 0" "LCS_entry aa bb i 0 = 0"
  by (simp_all add: LCS_entry_def)

lemma LCS_entry_Suc:
  "i < length aa \<Longrightarrow> j < length bb \<Longrightarrow>
   LCS_entry aa bb (Suc i) (Suc j) =
     (if aa ! i = bb ! j then Suc (LCS_entry aa bb i j)
      else max (LCS_entry aa bb (Suc i) j) (LCS_entry aa bb i (Suc j)))"
  by (simp add: LCS_entry_def take_Suc_conv_app_nth)

lemma LCS_entry_full:
  "LCS_entry aa bb (length aa) (length bb) = LCS_length aa bb"
  by (simp add: LCS_entry_def LCS_length_rev)

lemma cell_bound: "i \<le> m \<Longrightarrow> j \<le> n \<Longrightarrow> i + Suc m * j < Suc m * Suc n"
proof -
  assume a: "i \<le> m" "j \<le> n"
  have "Suc m * j \<le> Suc m * n" using a(2) by (rule mult_le_mono2)
  moreover have "Suc m * Suc n = Suc m + Suc m * n" by (rule mult_Suc_right)
  ultimately show ?thesis using a(1) by linarith
qed

lemma cell_inj:
  assumes "i \<le> m" "i' \<le> m" "i + Suc m * j = i' + Suc m * j'"
  shows "i = i' \<and> j = j'"
proof -
  have "(i + Suc m * j) mod Suc m = i mod Suc m" "(i' + Suc m * j') mod Suc m = i' mod Suc m"
    by (rule mod_mult_self2)+
  moreover have "i mod Suc m = i" "i' mod Suc m = i'"
    using assms(1,2) by (simp_all only: mod_less le_imp_less_Suc)
  ultimately have i: "i = i'" using assms(3) by metis
  then have "Suc m * j = Suc m * j'" using assms(3) by (simp only: add_left_cancel)
  then have "j = j'" by (simp only: mult_cancel1 nat.distinct simp_thms)
  then show ?thesis using i by simp
qed


section \<open>The matrix\<close>

lemma filled_length: "filled aa bb c i j \<Longrightarrow> length c = Suc (length aa) * Suc (length bb)"
  by (simp add: filled_def)

lemma filled_nth:
  "filled aa bb c i j \<Longrightarrow> i' \<le> length aa \<Longrightarrow> j' \<le> length bb \<Longrightarrow>
   i' = 0 \<or> j' = 0 \<or> i' \<le> i \<or> (i' = Suc i \<and> j' \<le> j) \<Longrightarrow>
   c ! (i' + Suc (length aa) * j') = LCS_entry aa bb i' j'"
  unfolding filled_def by blast

lemma filled_step:
  assumes f: "filled aa bb c i j" and i: "i < length aa" and j: "j < length bb"
  shows "filled aa bb (c[Suc i + Suc (length aa) * Suc j := LCS_entry aa bb (Suc i) (Suc j)])
           i (Suc j)"
  unfolding filled_def
proof (intro conjI allI impI)
  show "length (c[Suc i + Suc (length aa) * Suc j := LCS_entry aa bb (Suc i) (Suc j)])
          = Suc (length aa) * Suc (length bb)"
    using filled_length[OF f] by simp
next
  fix i' j'
  assume h: "i' \<le> length aa \<and> j' \<le> length bb \<and>
     (i' = 0 \<or> j' = 0 \<or> i' \<le> i \<or> (i' = Suc i \<and> j' \<le> Suc j))"
  let ?k = "Suc i + Suc (length aa) * Suc j"
  have kb: "?k < length c"
    using cell_bound[of "Suc i" "length aa" "Suc j" "length bb"] i j filled_length[OF f]
    by simp
  show "c[?k := LCS_entry aa bb (Suc i) (Suc j)] ! (i' + Suc (length aa) * j')
          = LCS_entry aa bb i' j'"
  proof (cases "i' = Suc i \<and> j' = Suc j")
    case True
    then show ?thesis using kb by simp
  next
    case False
    have ne: "i' + Suc (length aa) * j' \<noteq> ?k"
    proof
      assume "i' + Suc (length aa) * j' = ?k"
      then have "i' = Suc i \<and> j' = Suc j"
        using cell_inj[of i' "length aa" "Suc i" j' "Suc j"] h i by simp
      then show False using False by simp
    qed
    have "i' = 0 \<or> j' = 0 \<or> i' \<le> i \<or> (i' = Suc i \<and> j' \<le> j)"
      using h False by auto
    then have "c ! (i' + Suc (length aa) * j') = LCS_entry aa bb i' j'"
      using filled_nth[OF f] h by blast
    then show ?thesis using ne by (simp only: nth_list_update_neq[OF ne[symmetric]])
  qed
qed

lemma lcsInner_spec:
  "w = Suc (length aa) \<Longrightarrow> n = length bb \<Longrightarrow> filled aa bb c i j \<Longrightarrow> i < length aa \<Longrightarrow>
   j \<le> n \<Longrightarrow> \<exists>c'. lcsInner aa bb w n i j c = Some c' \<and> filled aa bb c' i n"
proof (induction aa bb w n i j c rule: lcsInner.induct)
  case (1 aa bb w n i j c)
  show ?case
  proof (cases "j < n")
    case False
    then have "j = n" using "1.prems" by simp
    then show ?thesis using "1.prems" by (subst lcsInner.simps) simp
  next
    case True
    let ?k = "Suc i + w * Suc j"
    let ?v = "LCS_entry aa bb (Suc i) (Suc j)"
    have w: "w = Suc (length aa)" and n: "n = length bb" using "1.prems" by auto
    have f: "filled aa bb c i j" using "1.prems" by simp
    have i: "i < length aa" using "1.prems" by simp
    have j: "j < length bb" using True n by simp
    have len: "length c = Suc (length aa) * Suc (length bb)" by (rule filled_length[OF f])
    have b1: "i + w * j < length c"
      using cell_bound[of i "length aa" j "length bb"] i j len w by simp
    have b2: "Suc i + w * j < length c"
      using cell_bound[of "Suc i" "length aa" j "length bb"] i j len w by simp
    have b3: "i + w * Suc j < length c"
      using cell_bound[of i "length aa" "Suc j" "length bb"] i j len w by simp
    have b4: "?k < length c"
      using cell_bound[of "Suc i" "length aa" "Suc j" "length bb"] i j len w by simp
    have r1: "c ! (i + w * j) = LCS_entry aa bb i j"
      using filled_nth[OF f, of i j] i j w by simp
    have r2: "c ! (Suc i + w * j) = LCS_entry aa bb (Suc i) j"
      using filled_nth[OF f, of "Suc i" j] i j w by simp
    have r3: "c ! (i + w * Suc j) = LCS_entry aa bb i (Suc j)"
      using filled_nth[OF f, of i "Suc j"] i j w by simp
    have body: "(if Equal (aa ! i) (bb ! j) then
                      do { v \<leftarrow> nth_opt c (i + w * j);
                           upd_opt c ((i + 1) + w * (j + 1)) (v + 1) }
                    else
                      do { v1 \<leftarrow> nth_opt c ((i + 1) + w * j);
                           v2 \<leftarrow> nth_opt c (i + w * (j + 1));
                           if v2 > v1 then upd_opt c ((i + 1) + w * (j + 1)) v2
                           else upd_opt c ((i + 1) + w * (j + 1)) v1 }) = Some (c[?k := ?v])"
      using b1 b2 b3 b4 r1 r2 r3 LCS_entry_Suc[OF i j]
      by (simp add: Equal_def max_def del: mult_Suc_right mult_Suc)
    have f': "filled aa bb (c[?k := ?v]) i (j + 1)"
      using filled_step[OF f i j] w by simp
    have "\<exists>c'. lcsInner aa bb w n i (j + 1) (c[?k := ?v]) = Some c' \<and> filled aa bb c' i n"
    proof (rule "1.IH"[of "aa ! i" "bb ! j" "c[?k := ?v]"])
      show "j < n" by (rule True)
      show "nth_opt aa i = Some (aa ! i)" using i by simp
      show "nth_opt bb j = Some (bb ! j)" using j by simp
      show "(if Equal (aa ! i) (bb ! j) then
                      do { v \<leftarrow> nth_opt c (i + w * j);
                           upd_opt c ((i + 1) + w * (j + 1)) (v + 1) }
                    else
                      do { v1 \<leftarrow> nth_opt c ((i + 1) + w * j);
                           v2 \<leftarrow> nth_opt c (i + w * (j + 1));
                           if v2 > v1 then upd_opt c ((i + 1) + w * (j + 1)) v2
                           else upd_opt c ((i + 1) + w * (j + 1)) v1 }) = Some (c[?k := ?v])"
        by (rule body)
      show "w = Suc (length aa)" "n = length bb" by (rule w, rule n)
      show "filled aa bb (c[?k := ?v]) i (j + 1)" by (rule f')
      show "i < length aa" by (rule i)
      show "j + 1 \<le> n" using True by simp
    qed
    then obtain c' where c': "lcsInner aa bb w n i (j + 1) (c[?k := ?v]) = Some c'"
      "filled aa bb c' i n" by blast
    have "lcsInner aa bb w n i j c = Some c'"
      apply (subst lcsInner.simps)
      using True i j body c'(1) by (simp del: mult_Suc_right mult_Suc)
    then show ?thesis using c'(2) by blast
  qed
qed

lemma filled_next_row:
  "filled aa bb c i (length bb) \<Longrightarrow> filled aa bb c (Suc i) 0"
  unfolding filled_def by (auto simp: le_Suc_eq)

lemma lcsOuter_spec:
  "w = Suc (length aa) \<Longrightarrow> m = length aa \<Longrightarrow> n = length bb \<Longrightarrow> filled aa bb c i 0 \<Longrightarrow> i \<le> m \<Longrightarrow>
   \<exists>c'. lcsOuter aa bb w m n i c = Some c' \<and> filled aa bb c' m 0"
proof (induction aa bb w m n i c rule: lcsOuter.induct)
  case (1 aa bb w m n i c)
  show ?case
  proof (cases "i < m")
    case False
    then have "i = m" using "1.prems" by simp
    then show ?thesis using "1.prems" by (subst lcsOuter.simps) simp
  next
    case True
    obtain c1 where c1: "lcsInner aa bb w n i 0 c = Some c1" "filled aa bb c1 i n"
      using lcsInner_spec[of w aa n bb c i 0] "1.prems" True by auto
    have "filled aa bb c1 (i + 1) 0"
      using filled_next_row[of aa bb c1 i] c1(2) "1.prems" by simp
    then obtain c' where c': "lcsOuter aa bb w m n (i + 1) c1 = Some c'" "filled aa bb c' m 0"
      using "1.IH"[OF True c1(1)] "1.prems" True by auto
    have "lcsOuter aa bb w m n i c = Some c'"
      using True c1(1) c'(1) by (subst lcsOuter.simps) simp
    then show ?thesis using c'(2) by blast
  qed
qed

lemma filled_init: "filled aa bb (replicate (Suc (length aa) * Suc (length bb)) 0) 0 0"
  unfolding filled_def
proof (intro conjI allI impI)
  show "length (replicate (Suc (length aa) * Suc (length bb)) (0::nat))
          = Suc (length aa) * Suc (length bb)" by simp
next
  fix i' j'
  assume h: "i' \<le> length aa \<and> j' \<le> length bb \<and>
     (i' = 0 \<or> j' = 0 \<or> i' \<le> 0 \<or> (i' = Suc 0 \<and> j' \<le> 0))"
  then have z: "LCS_entry aa bb i' j' = 0" by auto
  have "i' + Suc (length aa) * j' < Suc (length aa) * Suc (length bb)"
    using cell_bound h by blast
  then show "replicate (Suc (length aa) * Suc (length bb)) 0 ! (i' + Suc (length aa) * j')
          = LCS_entry aa bb i' j'"
    using z by (simp only: nth_replicate)
qed

lemma matrix_filled:
  "\<exists>c. lcsOuter aa bb (length aa + 1) (length aa) (length bb) 0
          (replicate ((length aa + 1) * (length bb + 1)) 0) = Some c
       \<and> filled aa bb c (length aa) 0"
proof -
  have "\<exists>c. lcsOuter aa bb (Suc (length aa)) (length aa) (length bb) 0
          (replicate (Suc (length aa) * Suc (length bb)) 0) = Some c
        \<and> filled aa bb c (length aa) 0"
    by (rule lcsOuter_spec[OF refl refl refl filled_init]) simp
  then show ?thesis by (simp only: Suc_eq_plus1)
qed

section \<open>Splicing\<close>

lemma slice_opt_take: "k \<le> length xs \<Longrightarrow> slice_opt xs 0 k = Some (take k xs)"
  by (simp add: slice_opt_def)

lemma slice_opt_drop: "k \<le> length xs \<Longrightarrow> slice_opt xs k (length xs) = Some (drop k xs)"
  by (simp add: slice_opt_def)

lemma go_copy_full: "length dst = length src \<Longrightarrow> go_copy dst src = src"
  by (simp add: go_copy_def)

lemma go_copy_prefix:
  "length src \<le> length dst \<Longrightarrow> go_copy dst src = src @ drop (length src) dst"
  by (simp add: go_copy_def min_def)

lemma insertAt_eq:
  assumes "k \<le> length xs"
  shows "insertAt xs k v = Some (take k xs @ v # drop k xs)"
proof -
  let ?n = "length xs"
  let ?col = "replicate (?n + 1) ZeroValue"
  let ?col1 = "take k xs @ replicate (?n + 1 - k) ZeroValue"
  have lo: "slice_opt xs 0 k = Some (take k xs)" using assms by (rule slice_opt_take)
  have c1: "go_copy ?col (take k xs) = ?col1"
    using assms by (simp add: go_copy_prefix del: replicate_Suc)
  have len1: "length ?col1 = ?n + 1" using assms by simp
  have "drop (k + 1) ?col1 = replicate (?n - k) ZeroValue" using assms by simp
  then have dst: "slice_opt ?col1 (k + 1) (length ?col1) = Some (replicate (?n - k) ZeroValue)"
    using assms slice_opt_drop[of "k + 1" ?col1] len1 by simp
  have hi: "slice_opt xs k ?n = Some (drop k xs)" using assms by (rule slice_opt_drop)
  have g2: "go_copy (replicate (?n - k) ZeroValue) (drop k xs) = drop k xs"
    by (rule go_copy_full) simp
  have t1: "take (k + 1) ?col1 = take k xs @ [ZeroValue]" using assms by simp
  have u: "upd_opt ((take k xs @ [ZeroValue]) @ drop k xs) k v = Some (take k xs @ v # drop k xs)"
    using assms by (simp add: upd_opt_def list_update_append)
  show ?thesis
    unfolding insertAt_def Let_def
    by (simp only: lo c1 dst hi g2 t1 u bind.bind_lunit)
qed

lemma removeAt_eq:
  assumes "k < length xs"
  shows "removeAt xs k = Some (take k xs @ drop (Suc k) xs)"
proof -
  let ?n = "length xs"
  let ?col = "replicate (?n - 1) ZeroValue"
  let ?col1 = "take k xs @ replicate (?n - 1 - k) ZeroValue"
  have ne: "length xs \<noteq> 0" using assms by auto
  have lo: "slice_opt xs 0 k = Some (take k xs)" using assms by (simp add: slice_opt_take)
  have c1: "go_copy ?col (take k xs) = ?col1"
    using assms by (simp add: go_copy_prefix)
  have len1: "length ?col1 = ?n - 1" using assms by simp
  have "drop k ?col1 = replicate (?n - 1 - k) ZeroValue" using assms by simp
  then have dst: "slice_opt ?col1 k (length ?col1) = Some (replicate (?n - 1 - k) ZeroValue)"
    using assms slice_opt_drop[of k ?col1] len1 by simp
  have hi: "slice_opt xs (k + 1) ?n = Some (drop (Suc k) xs)"
    using assms slice_opt_drop[of "k + 1" xs] by simp
  have g2: "go_copy (replicate (?n - 1 - k) ZeroValue) (drop (Suc k) xs) = drop (Suc k) xs"
    by (rule go_copy_full) simp
  have t1: "take k ?col1 = take k xs" using assms by simp
  show ?thesis
    unfolding removeAt_def Let_def
    by (simp only: ne if_False lo c1 dst hi g2 t1 bind.bind_lunit)
qed


lemma applyEvent_remEv:
  "applyEvent (P @ x # X) (remEv (length P)) = Some (P @ X)"
proof -
  have "removeAt (P @ x # X) (length P) = Some (P @ X)"
    using removeAt_eq[of "length P" "P @ x # X"] by simp
  then show ?thesis
    by (simp add: applyEvent_def remEv_def newEvent_def EncodeRemoveEvent_def
        DecodeRemoveEvent_def)
qed

lemma applyEvent_addEv:
  "applyEvent (P @ X) (addEv (length P) v) = Some (P @ v # X)"
proof -
  have "insertAt (P @ X) (length P) v = Some (P @ v # X)"
    using insertAt_eq[of "length P" "P @ X" v] by simp
  then show ?thesis
    by (simp add: applyEvent_def addEv_def newEvent_def EncodeAddEvent_def
        DecodeAddEvent_def)
qed

lemma applyEvents_append:
  "applyEvents xs (es1 @ es2) = do { ys \<leftarrow> applyEvents xs es1; applyEvents ys es2 }"
proof (induction es1 arbitrary: xs)
  case Nil
  then show ?case by simp
next
  case (Cons e es1)
  then show ?case by (cases "applyEvent xs e") simp_all
qed

section \<open>Backtracking\<close>

lemma walk_ok_done: "walk_ok s aa bb 0 0 r [] [] []"
  by (simp add: walk_ok_def)

lemma walk_ok_match:
  assumes ok: "walk_ok s aa bb i j r R A K"
    and i: "i < length aa" and j: "j < length bb" and eq: "aa ! i = bb ! j"
  shows "walk_ok s aa bb (Suc i) (Suc j) r R A (K @ [aa ! i])"
proof -
  have ta: "take (Suc i) aa = take i aa @ [aa ! i]" using i by (rule take_Suc_conv_app_nth)
  have tb: "take (Suc j) bb = take j bb @ [aa ! i]"
    using take_Suc_conv_app_nth[OF j] eq by simp
  have 1: "\<forall>pre X. length pre = s \<longrightarrow>
        applyEvents (pre @ take (Suc i) aa @ X) (map remEv R) = Some (pre @ (K @ [aa ! i]) @ X)"
  proof (intro allI impI)
    fix pre X assume "length (pre :: Value list) = s"
    then have "applyEvents (pre @ take i aa @ (aa ! i # X)) (map remEv R)
                 = Some (pre @ K @ (aa ! i # X))"
      using ok unfolding walk_ok_def by blast
    then show "applyEvents (pre @ take (Suc i) aa @ X) (map remEv R)
                 = Some (pre @ (K @ [aa ! i]) @ X)"
      by (simp add: ta)
  qed
  have 2: "\<forall>pre X. length pre = s \<longrightarrow>
        applyEvents (pre @ (K @ [aa ! i]) @ X) (rev (map (addRecEv s bb) A))
          = Some (pre @ take (Suc j) bb @ X)"
  proof (intro allI impI)
    fix pre X assume "length (pre :: Value list) = s"
    then have "applyEvents (pre @ K @ (aa ! i # X)) (rev (map (addRecEv s bb) A))
                 = Some (pre @ take j bb @ (aa ! i # X))"
      using ok unfolding walk_ok_def by blast
    then show "applyEvents (pre @ (K @ [aa ! i]) @ X) (rev (map (addRecEv s bb) A))
          = Some (pre @ take (Suc j) bb @ X)"
      by (simp add: tb)
  qed
  have 3: "\<forall>k < length A. fst (A ! k) < length bb \<and>
        fst (snd (A ! k)) + snd (snd (A ! k)) + (length A - 1 - k)
          = s + fst (A ! k) + r + length R"
    using ok unfolding walk_ok_def by blast
  have 4: "Suc i + length A = Suc j + length R"
    using ok unfolding walk_ok_def by simp
  have "length R + LCS_entry aa bb i j = i" using ok unfolding walk_ok_def by blast
  then have 5: "length R + LCS_entry aa bb (Suc i) (Suc j) = Suc i"
    using LCS_entry_Suc[OF i j] eq by simp
  show ?thesis unfolding walk_ok_def using 1 2 3 4 5 by blast
qed

lemma walk_ok_add:
  assumes ok: "walk_ok s aa bb i j r R A K"
    and j: "j < length bb"
    and L: "LCS_entry aa bb i (Suc j) = LCS_entry aa bb i j"
  shows "walk_ok s aa bb i (Suc j) r R ((j, i + s, r) # A) K"
proof -
  have tb: "take (Suc j) bb = take j bb @ [bb ! j]" using j by (rule take_Suc_conv_app_nth)
  have cnt: "i + length A = j + length R" using ok unfolding walk_ok_def by blast
  have 1: "\<forall>pre X. length pre = s \<longrightarrow>
        applyEvents (pre @ take i aa @ X) (map remEv R) = Some (pre @ K @ X)"
    using ok unfolding walk_ok_def by blast
  have 2: "\<forall>pre X. length pre = s \<longrightarrow>
        applyEvents (pre @ K @ X) (rev (map (addRecEv s bb) ((j, i + s, r) # A)))
          = Some (pre @ take (Suc j) bb @ X)"
  proof (intro allI impI)
    fix pre X assume len: "length (pre :: Value list) = s"
    then have a: "applyEvents (pre @ K @ X) (rev (map (addRecEv s bb) A))
                 = Some (pre @ take j bb @ X)"
      using ok unfolding walk_ok_def by blast
    have "length (pre @ take j bb) = s + j" using len j by simp
    then have "applyEvent ((pre @ take j bb) @ X) (addEv (s + j) (bb ! j))
                 = Some ((pre @ take j bb) @ bb ! j # X)"
      using applyEvent_addEv[of "pre @ take j bb" X "bb ! j"] by simp
    then have b: "applyEvents (pre @ take j bb @ X) [addRecEv s bb (j, i + s, r)]
                 = Some (pre @ take (Suc j) bb @ X)"
      by (simp add: addRecEv_def tb)
    show "applyEvents (pre @ K @ X) (rev (map (addRecEv s bb) ((j, i + s, r) # A)))
          = Some (pre @ take (Suc j) bb @ X)"
      using a b by (simp add: applyEvents_append)
  qed
  have old3: "\<forall>k < length A. fst (A ! k) < length bb \<and>
        fst (snd (A ! k)) + snd (snd (A ! k)) + (length A - 1 - k)
          = s + fst (A ! k) + r + length R"
    using ok unfolding walk_ok_def by blast
  have 3: "\<forall>k < length ((j, i + s, r) # A). fst (((j, i + s, r) # A) ! k) < length bb \<and>
        fst (snd (((j, i + s, r) # A) ! k)) + snd (snd (((j, i + s, r) # A) ! k))
          + (length ((j, i + s, r) # A) - 1 - k)
          = s + fst (((j, i + s, r) # A) ! k) + r + length R"
  proof (intro allI impI)
    fix k assume k: "k < length ((j, i + s, r) # A)"
    show "fst (((j, i + s, r) # A) ! k) < length bb \<and>
        fst (snd (((j, i + s, r) # A) ! k)) + snd (snd (((j, i + s, r) # A) ! k))
          + (length ((j, i + s, r) # A) - 1 - k)
          = s + fst (((j, i + s, r) # A) ! k) + r + length R"
    proof (cases k)
      case 0
      then show ?thesis using j cnt by simp
    next
      case (Suc k')
      then have "k' < length A" using k by simp
      then have "fst (A ! k') < length bb \<and>
        fst (snd (A ! k')) + snd (snd (A ! k')) + (length A - 1 - k')
          = s + fst (A ! k') + r + length R"
        using old3 by blast
      then show ?thesis using Suc by simp
    qed
  qed
  have 4: "i + length ((j, i + s, r) # A) = Suc j + length R" using cnt by simp
  have 5: "length R + LCS_entry aa bb i (Suc j) = i"
    using ok L unfolding walk_ok_def by simp
  show ?thesis unfolding walk_ok_def using 1 2 3 4 5 by blast
qed

lemma walk_ok_remove:
  assumes ok: "walk_ok s aa bb i j (Suc r) R A K"
    and i: "i < length aa"
    and L: "LCS_entry aa bb (Suc i) j = LCS_entry aa bb i j"
  shows "walk_ok s aa bb (Suc i) j r ((s + i) # R) A K"
proof -
  have ta: "take (Suc i) aa = take i aa @ [aa ! i]" using i by (rule take_Suc_conv_app_nth)
  have 1: "\<forall>pre X. length pre = s \<longrightarrow>
        applyEvents (pre @ take (Suc i) aa @ X) (map remEv ((s + i) # R)) = Some (pre @ K @ X)"
  proof (intro allI impI)
    fix pre X assume len: "length (pre :: Value list) = s"
    then have a: "applyEvents (pre @ take i aa @ X) (map remEv R) = Some (pre @ K @ X)"
      using ok unfolding walk_ok_def by blast
    have "length (pre @ take i aa) = s + i" using len i by simp
    then have "applyEvent ((pre @ take i aa) @ aa ! i # X) (remEv (s + i))
                 = Some ((pre @ take i aa) @ X)"
      using applyEvent_remEv[of "pre @ take i aa" "aa ! i" X] by simp
    then have "applyEvent (pre @ take (Suc i) aa @ X) (remEv (s + i))
                 = Some (pre @ take i aa @ X)"
      by (simp add: ta)
    then show "applyEvents (pre @ take (Suc i) aa @ X) (map remEv ((s + i) # R))
                 = Some (pre @ K @ X)"
      using a by simp
  qed
  have 2: "\<forall>pre X. length pre = s \<longrightarrow>
        applyEvents (pre @ K @ X) (rev (map (addRecEv s bb) A)) = Some (pre @ take j bb @ X)"
    using ok unfolding walk_ok_def by blast
  have 3: "\<forall>k < length A. fst (A ! k) < length bb \<and>
        fst (snd (A ! k)) + snd (snd (A ! k)) + (length A - 1 - k)
          = s + fst (A ! k) + r + length ((s + i) # R)"
    using ok unfolding walk_ok_def by simp
  have 4: "Suc i + length A = j + length ((s + i) # R)"
    using ok unfolding walk_ok_def by simp
  have 5: "length ((s + i) # R) + LCS_entry aa bb (Suc i) j = Suc i"
    using ok L unfolding walk_ok_def by simp
  show ?thesis unfolding walk_ok_def using 1 2 3 4 5 by blast
qed

lemma caseMatch_eval:
  "i \<le> length aa \<Longrightarrow> j \<le> length bb \<Longrightarrow>
   caseMatch aa bb i j = Some (0 < i \<and> 0 < j \<and> aa ! (i - 1) = bb ! (j - 1))"
  by (auto simp: caseMatch_def Equal_def nth_opt_def)

lemma table_read:
  "filled aa bb c (length aa) 0 \<Longrightarrow> w = Suc (length aa) \<Longrightarrow> i \<le> length aa \<Longrightarrow> j \<le> length bb \<Longrightarrow>
   nth_opt c (i + w * j) = Some (LCS_entry aa bb i j)"
proof -
  assume f: "filled aa bb c (length aa) 0" and w: "w = Suc (length aa)"
    and i: "i \<le> length aa" and j: "j \<le> length bb"
  have "i + Suc (length aa) * j < length c"
    using cell_bound[OF i j] filled_length[OF f] by simp
  moreover have "c ! (i + Suc (length aa) * j) = LCS_entry aa bb i j"
    using filled_nth[OF f i j] i by blast
  ultimately show ?thesis using w by (simp add: nth_opt_def del: mult_Suc)
qed

lemma caseAdd_eval:
  assumes "filled aa bb c (length aa) 0" "w = Suc (length aa)" "i \<le> length aa" "j \<le> length bb"
  shows "caseAdd w c i j =
     Some (0 < j \<and> (i = 0 \<or> LCS_entry aa bb i (j - 1) \<ge> LCS_entry aa bb (i - 1) j))"
proof (cases "0 < j \<and> i \<noteq> 0")
  case True
  have "nth_opt c (i + w * (j - 1)) = Some (LCS_entry aa bb i (j - 1))"
    using table_read[OF assms(1,2), of i "j - 1"] assms(3,4) by simp
  moreover have "nth_opt c ((i - 1) + w * j) = Some (LCS_entry aa bb (i - 1) j)"
    using table_read[OF assms(1,2), of "i - 1" j] assms(3,4) by simp
  ultimately show ?thesis using True by (simp add: caseAdd_def)
next
  case False
  then show ?thesis by (auto simp: caseAdd_def)
qed

lemma caseRemove_eval:
  assumes "filled aa bb c (length aa) 0" "w = Suc (length aa)" "i \<le> length aa" "j \<le> length bb"
  shows "caseRemove w c i j =
     Some (0 < i \<and> (j = 0 \<or> LCS_entry aa bb i (j - 1) < LCS_entry aa bb (i - 1) j))"
proof (cases "0 < i \<and> j \<noteq> 0")
  case True
  have "nth_opt c (i + w * (j - 1)) = Some (LCS_entry aa bb i (j - 1))"
    using table_read[OF assms(1,2), of i "j - 1"] assms(3,4) by simp
  moreover have "nth_opt c ((i - 1) + w * j) = Some (LCS_entry aa bb (i - 1) j)"
    using table_read[OF assms(1,2), of "i - 1" j] assms(3,4) by simp
  ultimately show ?thesis using True by (simp add: caseRemove_def)
next
  case False
  then show ?thesis by (auto simp: caseRemove_def)
qed

lemma backtrack_spec:
  "filled aa bb c (length aa) 0 \<Longrightarrow> w = Suc (length aa) \<Longrightarrow> i \<le> length aa \<Longrightarrow> j \<le> length bb \<Longrightarrow>
   idx = i + s \<Longrightarrow>
   \<exists>R A K. backtrack aa bb w c idx i j r steps adds
              = Some (r + length R, steps @ map remEv R, adds @ A)
          \<and> walk_ok s aa bb i j r R A K"
proof (induction aa bb w c idx i j r steps adds rule: backtrack.induct)
  case (1 aa bb w c idx i j r steps adds)
  note f = "1.prems"(1) and w = "1.prems"(2) and i = "1.prems"(3) and j = "1.prems"(4)
    and idx = "1.prems"(5)
  let ?M = "0 < i \<and> 0 < j \<and> aa ! (i - 1) = bb ! (j - 1)"
  let ?A = "0 < j \<and> (i = 0 \<or> LCS_entry aa bb i (j - 1) \<ge> LCS_entry aa bb (i - 1) j)"
  let ?R = "0 < i \<and> (j = 0 \<or> LCS_entry aa bb i (j - 1) < LCS_entry aa bb (i - 1) j)"
  have cm: "caseMatch aa bb i j = Some ?M" using caseMatch_eval[OF i j] .
  have ca: "caseAdd w c i j = Some ?A" using caseAdd_eval[OF f w i j] .
  have cr: "caseRemove w c i j = Some ?R" using caseRemove_eval[OF f w i j] .
  show ?case
  proof (cases ?M)
    case True
    have cmT: "caseMatch aa bb i j = Some True" using cm True by simp
    have "\<exists>R A K. backtrack aa bb w c (idx - 1) (i - 1) (j - 1) r steps adds
              = Some (r + length R, steps @ map remEv R, adds @ A)
          \<and> walk_ok s aa bb (i - 1) (j - 1) r R A K"
      using "1.IH"(1)[OF cm _ f w] True i j idx by simp
    then obtain R A K where
      b: "backtrack aa bb w c (idx - 1) (i - 1) (j - 1) r steps adds
              = Some (r + length R, steps @ map remEv R, adds @ A)"
      and ok: "walk_ok s aa bb (i - 1) (j - 1) r R A K" by blast
    have lt: "i - 1 < length aa" "j - 1 < length bb" using True i j by auto
    have "walk_ok s aa bb (Suc (i - 1)) (Suc (j - 1)) r R A (K @ [aa ! (i - 1)])"
      using walk_ok_match[OF ok lt] True by blast
    then have ok': "walk_ok s aa bb i j r R A (K @ [aa ! (i - 1)])" using True by simp
    have "backtrack aa bb w c idx i j r steps adds
            = Some (r + length R, steps @ map remEv R, adds @ A)"
      using b by (subst backtrack.simps) (simp add: cmT)
    then show ?thesis using ok' by blast
  next
    case nM: False
    have cmF: "caseMatch aa bb i j = Some False" using cm nM by simp
    show ?thesis
    proof (cases ?A)
      case True
      have caT: "caseAdd w c i j = Some True" using ca True by simp
      have "\<exists>R A K. backtrack aa bb w c idx i (j - 1) r steps (adds @ [(j - 1, idx, r)])
              = Some (r + length R, steps @ map remEv R, (adds @ [(j - 1, idx, r)]) @ A)
          \<and> walk_ok s aa bb i (j - 1) r R A K"
        using "1.IH"(2)[OF cm _ ca _ f w] nM True i j idx by simp
      then obtain R A K where
        b: "backtrack aa bb w c idx i (j - 1) r steps (adds @ [(j - 1, idx, r)])
              = Some (r + length R, steps @ map remEv R, (adds @ [(j - 1, idx, r)]) @ A)"
        and ok: "walk_ok s aa bb i (j - 1) r R A K" by blast
      have L: "LCS_entry aa bb i (Suc (j - 1)) = LCS_entry aa bb i (j - 1)"
      proof (cases "i = 0")
        case True
        then show ?thesis by simp
      next
        case False
        have lt2: "i - 1 < length aa" "j - 1 < length bb" using False True i j by auto
        have ne: "aa ! (i - 1) \<noteq> bb ! (j - 1)" using nM False True by auto
        have "LCS_entry aa bb (Suc (i - 1)) (Suc (j - 1)) =
           max (LCS_entry aa bb (Suc (i - 1)) (j - 1)) (LCS_entry aa bb (i - 1) (Suc (j - 1)))"
          using LCS_entry_Suc[OF lt2] ne by simp
        then show ?thesis using False True by simp
      qed
      have lt: "j - 1 < length bb" using True j by auto
      have "walk_ok s aa bb i (Suc (j - 1)) r R ((j - 1, i + s, r) # A) K"
        using walk_ok_add[OF ok lt L] .
      then have ok': "walk_ok s aa bb i j r R ((j - 1, idx, r) # A) K"
        using True idx by simp
      have "backtrack aa bb w c idx i j r steps adds
              = Some (r + length R, steps @ map remEv R, adds @ ((j - 1, idx, r) # A))"
        using b by (subst backtrack.simps) (simp add: cmF caT)
      then show ?thesis using ok' by blast
    next
      case nA: False
      have caF: "caseAdd w c i j = Some False" using ca nA by simp
      show ?thesis
      proof (cases ?R)
        case True
        have crT: "caseRemove w c i j = Some True" using cr True by simp
        have "\<exists>R A K. backtrack aa bb w c (idx - 1) (i - 1) j (r + 1)
                (steps @ [newEvent ''remove'' (EncodeRemoveEvent (int (idx - 1)))]) adds
              = Some ((r + 1) + length R,
                      (steps @ [newEvent ''remove'' (EncodeRemoveEvent (int (idx - 1)))])
                        @ map remEv R, adds @ A)
          \<and> walk_ok s aa bb (i - 1) j (r + 1) R A K"
          using "1.IH"(3)[OF cm _ ca _ cr _ f w] nM nA True i j idx by simp
        then obtain R A K where
          b: "backtrack aa bb w c (idx - 1) (i - 1) j (r + 1)
                (steps @ [newEvent ''remove'' (EncodeRemoveEvent (int (idx - 1)))]) adds
              = Some ((r + 1) + length R,
                      (steps @ [newEvent ''remove'' (EncodeRemoveEvent (int (idx - 1)))])
                        @ map remEv R, adds @ A)"
          and ok: "walk_ok s aa bb (i - 1) j (r + 1) R A K" by blast
        have L: "LCS_entry aa bb (Suc (i - 1)) j = LCS_entry aa bb (i - 1) j"
        proof (cases "j = 0")
          case True
          then show ?thesis by simp
        next
          case False
          have lt2: "i - 1 < length aa" "j - 1 < length bb" using False True i j by auto
          have ne: "aa ! (i - 1) \<noteq> bb ! (j - 1)" using nM False True by auto
          have "LCS_entry aa bb (Suc (i - 1)) (Suc (j - 1)) =
             max (LCS_entry aa bb (Suc (i - 1)) (j - 1)) (LCS_entry aa bb (i - 1) (Suc (j - 1)))"
            using LCS_entry_Suc[OF lt2] ne by simp
          then show ?thesis using False True by simp
        qed
        have lt: "i - 1 < length aa" using True i by auto
        have ok1: "walk_ok s aa bb (i - 1) j (Suc r) R A K" using ok by simp
        have "walk_ok s aa bb (Suc (i - 1)) j r ((s + (i - 1)) # R) A K"
          using walk_ok_remove[OF ok1 lt L] .
        then have ok': "walk_ok s aa bb i j r ((idx - 1) # R) A K"
          using True idx by (simp add: add.commute)
        have "backtrack aa bb w c idx i j r steps adds
              = Some (r + length ((idx - 1) # R), steps @ map remEv ((idx - 1) # R), adds @ A)"
          using b by (subst backtrack.simps) (simp add: cmF caF crT remEv_def)
        then show ?thesis using ok' by blast
      next
        case nR: False
        then have z: "i = 0" "j = 0" using nM nA by auto
        have crF: "caseRemove w c i j = Some False" using cr nR by simp
        have "backtrack aa bb w c idx i j r steps adds = Some (r, steps, adds)"
          by (subst backtrack.simps) (simp add: cmF caF crF)
        then have "backtrack aa bb w c idx i j r steps adds
              = Some (r + length ([]::nat list), steps @ map remEv [], adds @ [])
            \<and> walk_ok s aa bb i j r [] [] []"
          using z walk_ok_done by simp
        then show ?thesis by blast
      qed
    qed
  qed
qed

lemma emitAdds_spec:
  assumes h: "\<forall>k < length A. fst (A ! k) < length bb \<and>
        fst (snd (A ! k)) + snd (snd (A ! k)) + (length A - 1 - k) = s + fst (A ! k) + rf"
  shows "k \<le> length A \<Longrightarrow>
     emitAdds bb A rf k st = Some (st @ map (addRecEv s bb) (rev (take k A)))"
proof (induction k arbitrary: st)
  case 0
  then show ?case by simp
next
  case (Suc k)
  then have k: "k < length A" by simp
  have n0: "fst (A ! k) < length bb"
    and eq: "fst (snd (A ! k)) + snd (snd (A ! k)) + (length A - 1 - k) = s + fst (A ! k) + rf"
    using h k by blast+
  have ieq: "int (fst (snd (A ! k))) - int rf + int (snd (snd (A ! k)))
                  + (int (length A) - 1) - int k = int (s + fst (A ! k))"
    using eq k by linarith
  have ev: "newEvent ''add'' (EncodeAddEvent (bb ! fst (A ! k))
               (int (fst (snd (A ! k))) - int rf + int (snd (snd (A ! k)))
                  + (int (length A) - 1) - int k)) = addRecEv s bb (A ! k)"
    by (simp only: ieq addRecEv_def addEv_def)
  have t: "rev (take (Suc k) A) = A ! k # rev (take k A)"
    using take_Suc_conv_app_nth[OF k] by simp
  have "emitAdds bb A rf (Suc k) st = emitAdds bb A rf k (st @ [addRecEv s bb (A ! k)])"
    using k n0 ev by simp
  also have "\<dots> = Some ((st @ [addRecEv s bb (A ! k)]) @ map (addRecEv s bb) (rev (take k A)))"
    using Suc.IH[of "st @ [addRecEv s bb (A ! k)]"] k by simp
  finally show ?case by (simp add: t)
qed

section \<open>Correctness of \<^verbatim>\<open>lcs\<close>\<close>

lemma split3:
  "s \<le> m \<Longrightarrow> m \<le> length a \<Longrightarrow> a = take s a @ take (m - s) (drop s a) @ drop m a"
proof -
  assume h: "s \<le> m" "m \<le> length a"
  have "take (m - s) (drop s a) @ drop m a = drop s a"
    using h by (metis add_diff_inverse_nat append_take_drop_id drop_drop le_antisym linorder_not_le add.commute)
  then show ?thesis by simp
qed

lemma lcs_same: "lcs a a = Some []"
proof -
  obtain s' where s: "trimStart a a 0 = Some s'" "s' \<le> length a"
    "\<not> (s' < length a \<and> s' < length a \<and> a ! s' = a ! s')"
    using trimStart_spec[of 0 a a] by auto
  then have "s' = length a" by auto
  then show ?thesis using s(1) by (simp add: lcs_def)
qed

lemma lcs_main:
  "\<exists>R A s bb. lcs a b = Some (map remEv R @ map (addRecEv s bb) A)
     \<and> length R + length A + 2 * LCS_length a b = length a + length b
     \<and> applyEvents a (map remEv R @ map (addRecEv s bb) A) = Some b"
proof -
  obtain s where s: "trimStart a b 0 = Some s" "s \<le> length a" "s \<le> length b"
    "take s a = take s b"
    using trimStart_spec[of 0 a b] by auto
  show ?thesis
  proof (cases "s = length a \<and> s = length b")
    case True
    then have ab: "a = b" using s(4) by simp
    have "lcs a b = Some (map remEv [] @ map (addRecEv 0 []) [])"
      using s(1) True by (simp add: lcs_def)
    moreover have "length ([]::nat list) + length ([]::addRec list) + 2 * LCS_length a b
        = length a + length b"
      using ab by (simp add: LCS_length_same)
    moreover have "applyEvents a (map remEv [] @ map (addRecEv 0 []) []) = Some b"
      using ab by simp
    ultimately show ?thesis by blast
  next
    case False
    obtain m n where mn: "trimEnd a b s (length a) (length b) = Some (m, n)"
      "s \<le> m" "m \<le> length a" "s \<le> n" "n \<le> length b" "drop m a = drop n b"
      using trimEnd_spec[of s "length a" a "length b" b] s(2,3) by auto
    define aa where "aa = take (m - s) (drop s a)"
    define bb where "bb = take (n - s) (drop s b)"
    define pre where "pre = take s a"
    define suf where "suf = drop m a"
    have la: "length aa = m - s" using mn by (simp add: aa_def)
    have lb: "length bb = n - s" using mn by (simp add: bb_def)
    have a: "a = pre @ aa @ suf" unfolding pre_def aa_def suf_def using split3[OF mn(2,3)] .
    have b: "b = pre @ bb @ suf"
      unfolding pre_def bb_def suf_def using split3[OF mn(4,5)] s(4) mn(6) by simp
    have lpre: "length pre = s" using s(2) by (simp add: pre_def)
    have sa: "(if s > 0 \<or> m < length a
                then do { x \<leftarrow> slice_opt a s m; Some (x, m - s) }
                else Some (a, m)) = Some (aa, m - s)"
      using mn by (auto simp: slice_opt_def aa_def)
    have sb: "(if s > 0 \<or> n < length b
                then do { y \<leftarrow> slice_opt b s n; Some (y, n - s) }
                else Some (b, n)) = Some (bb, n - s)"
      using mn by (auto simp: slice_opt_def bb_def)
    obtain c where c: "lcsOuter aa bb (length aa + 1) (length aa) (length bb) 0
          (replicate ((length aa + 1) * (length bb + 1)) 0) = Some c"
       "filled aa bb c (length aa) 0"
      using matrix_filled[of aa bb] by blast
    have topi: "(length aa + 1) * (length bb + 1) - 1 = length aa + Suc (length aa) * length bb"
      by simp
    have top: "nth_opt c ((length aa + 1) * (length bb + 1) - 1) = Some (LCS_length aa bb)"
      using table_read[OF c(2) refl, of "length aa" "length bb"]
      by (simp only: topi LCS_entry_full le_refl)
    have cap: "\<not> (length aa + length bb < 2 * LCS_length aa bb)"
      using LCS_length_le[of aa bb] by linarith
    obtain R A K where bt: "backtrack aa bb (length aa + 1) c (length aa + s) (length aa)
            (length bb) 0 [] [] = Some (0 + length R, [] @ map remEv R, [] @ A)"
      and ok: "walk_ok s aa bb (length aa) (length bb) 0 R A K"
      using backtrack_spec[OF c(2), of "length aa + 1" "length aa" "length bb" "length aa + s" s 0 "[]" "[]"]
      by auto
    have w3: "\<forall>k < length A. fst (A ! k) < length bb \<and>
        fst (snd (A ! k)) + snd (snd (A ! k)) + (length A - 1 - k) = s + fst (A ! k) + length R"
      using ok unfolding walk_ok_def by simp
    have em: "emitAdds bb A (length R) (length A) (map remEv R)
               = Some (map remEv R @ map (addRecEv s bb) (rev A))"
      using emitAdds_spec[OF w3, of "length A" "map remEv R"] by simp
    have F: "(s = length a \<and> s = length b) = False" using False by simp
    have bt': "backtrack aa bb (m - s + 1) c (m - s + s) (m - s) (n - s) 0 [] []
                 = Some (length R, map remEv R, A)"
      using bt by (simp add: la lb)
    have res: "lcs a b = Some (map remEv R @ map (addRecEv s bb) (rev A))"
      unfolding lcs_def
      by (simp add: s(1) F mn(1) sa sb c(1)[unfolded la lb] top[unfolded la lb]
            cap[unfolded la lb] bt' em
          del: mult_Suc mult_Suc_right replicate_Suc One_nat_def)
    have cnt: "length aa + length A = length bb + length R"
      and opt: "length R + LCS_length aa bb = length aa"
      using ok unfolding walk_ok_def by (simp_all add: LCS_entry_full)
    have "LCS_length a b = s + LCS_length aa bb + length suf"
      using a b lpre LCS_length_prefix[of pre "aa @ suf" "bb @ suf"]
        LCS_length_suffix[of aa suf bb] by simp
    then have len: "length R + length (rev A) + 2 * LCS_length a b = length a + length b"
      using cnt opt a b lpre by simp
    have r1: "applyEvents (pre @ take (length aa) aa @ suf) (map remEv R) = Some (pre @ K @ suf)"
      using ok lpre unfolding walk_ok_def by blast
    have r2: "applyEvents (pre @ K @ suf) (rev (map (addRecEv s bb) A))
                = Some (pre @ take (length bb) bb @ suf)"
      using ok lpre unfolding walk_ok_def by blast
    have app: "applyEvents a (map remEv R @ map (addRecEv s bb) (rev A)) = Some b"
      using r1 r2 a b by (simp add: applyEvents_append rev_map)
    show ?thesis using res len app by blast
  qed
qed

section \<open>The registry and the event handlers\<close>

lemma nth_opt_valid: "p < length xs \<Longrightarrow> nth_opt xs p = Some (xs ! p)"
  by (simp add: nth_opt_def)

lemma fold_unlink_base:
  "base (fold unlink ls e0) = (if [] \<in> set ls then None else base e0)"
  by (induction ls arbitrary: e0) (auto simp: unlink_def)

lemma fold_unlink_queries: "queries (fold unlink ls e0) = queries e0"
  by (induction ls arbitrary: e0) (auto simp: unlink_def)

lemma fold_unlink_count: "count (fold unlink ls e0) = count e0"
  by (induction ls arbitrary: e0) (auto simp: unlink_def)

lemma fold_unlink_elinks:
  "elinks (fold unlink ls e0)
     = map_option (\<lambda>l q. if q \<in> set ls \<and> q \<noteq> [] then None else l q) (elinks e0)"
proof (induction ls arbitrary: e0)
  case Nil
  then show ?case by (cases "elinks e0") auto
next
  case (Cons a ls)
  have step: "elinks (fold unlink (a # ls) e0)
      = map_option (\<lambda>l q. if q \<in> set ls \<and> q \<noteq> [] then None else l q) (elinks (unlink a e0))"
    using Cons[of "unlink a e0"] by simp
  show ?case
  proof (cases "elinks e0")
    case None
    then have "elinks (unlink a e0) = None" by (simp add: unlink_def)
    then show ?thesis using step None by simp
  next
    case (Some l)
    show ?thesis
    proof (cases "a = []")
      case True
      then have "elinks (unlink a e0) = Some l" using Some by (simp add: unlink_def)
      moreover have "(\<lambda>q. if q \<in> set ls \<and> q \<noteq> [] then None else l q)
          = (\<lambda>q. if q \<in> set (a # ls) \<and> q \<noteq> [] then None else l q)"
        using True by (intro ext) auto
      ultimately show ?thesis using step Some by simp
    next
      case False
      then have "elinks (unlink a e0) = Some (l(a := None))" using Some by (simp add: unlink_def)
      moreover have "(\<lambda>q. if q \<in> set ls \<and> q \<noteq> [] then None else (l(a := None)) q)
          = (\<lambda>q. if q \<in> set (a # ls) \<and> q \<noteq> [] then None else l q)"
        using False by (intro ext) auto
      ultimately show ?thesis using step Some by simp
    qed
  qed
qed

lemma unregister_eq:
  "p < length (rss w) \<Longrightarrow>
   unregister w p =
     Some (w\<lparr>es := unregistered (es w) (query (rss w ! p)) (links (rss w ! p)),
             rss := (rss w)[p := (rss w ! p)\<lparr>links := []\<rparr>]\<rparr>)"
  by (simp add: unregister_def nth_opt_def unregistered_def Let_def
      fold_unlink_base fold_unlink_queries fold_unlink_count fold_unlink_elinks)

lemma registryCleared_unregistered: "registryCleared (unregistered e0 q ls) q ls"
  by (cases "elinks e0") (auto simp: registryCleared_def unregistered_def list_all_iff)

lemma registryCleared_count:
  "registryCleared (e'\<lparr>count := n\<rparr>) q ls = registryCleared e' q ls"
  by (simp add: registryCleared_def)

lemma handleEventDelete_eq:
  "p < length (rss w) \<Longrightarrow>
   handleEventDelete w p r =
     Some (removeCount
             (w\<lparr>es := unregistered (es w) (query (rss w ! p)) (links (rss w ! p)),
                rss := (rss w)[p := (rss w ! p)\<lparr>subs := None, links := []\<rparr>]\<rparr>)
             (int (length (subsList (subs (rss w ! p))))),
           map (\<lambda>s. EventCall s r) (subsList (subs (rss w ! p))))"
proof -
  assume p: "p < length (rss w)"
  let ?w1 = "w\<lparr>rss := (rss w)[p := (rss w ! p)\<lparr>subs := None\<rparr>]\<rparr>"
  have "unregister ?w1 p = Some (?w1\<lparr>es := unregistered (es ?w1) (query (rss ?w1 ! p)) (links (rss ?w1 ! p)),
             rss := (rss ?w1)[p := (rss ?w1 ! p)\<lparr>links := []\<rparr>]\<rparr>)"
    by (rule unregister_eq) (simp add: p)
  then have "unregister ?w1 p =
     Some (w\<lparr>es := unregistered (es w) (query (rss w ! p)) (links (rss w ! p)),
                rss := (rss w)[p := (rss w ! p)\<lparr>subs := None, links := []\<rparr>]\<rparr>)"
    using p by simp
  then show ?thesis using p by (simp add: handleEventDelete_def nth_opt_def Let_def)
qed

lemma handleEventAdd_eq:
  assumes "p < length (rss w)" "state (rss w ! p) \<noteq> stateModel"
    "collection (rss w ! p) = Some cp" "collectionValues (heap w) cp = Some xs"
    "Payload r = AddPayload idx v"
  shows "handleEventAdd w p r =
     (if idx < 0 \<or> int (length xs) < idx
      then Some (logError w (ErrOutOfBounds idx), r, False)
      else Some (installCollection w p (take (nat idx) xs @ v # drop (nat idx) xs),
                 r\<lparr>Idx := idx, Value := v\<rparr>, True))"
proof (cases "idx < 0 \<or> int (length xs) < idx")
  case True
  then show ?thesis using assms
    by (simp add: handleEventAdd_def nth_opt_def DecodeAddEvent_def)
next
  case False
  then have "nat idx \<le> length xs" by linarith
  then have "insertAt xs (nat idx) v = Some (take (nat idx) xs @ v # drop (nat idx) xs)"
    by (rule insertAt_eq)
  then show ?thesis using assms False
    by (simp add: handleEventAdd_def nth_opt_def DecodeAddEvent_def installCollection_def)
qed

lemma handleEventRemove_eq:
  assumes "p < length (rss w)" "state (rss w ! p) \<noteq> stateModel"
    "collection (rss w ! p) = Some cp" "collectionValues (heap w) cp = Some xs"
    "Payload r = RemovePayload idx"
  shows "handleEventRemove w p r =
     (if idx < 0 \<or> int (length xs) \<le> idx
      then Some (logError w (ErrOutOfBounds idx), r, False)
      else Some (installCollection w p (take (nat idx) xs @ drop (Suc (nat idx)) xs),
                 r\<lparr>Value := xs ! nat idx, Idx := idx\<rparr>, True))"
proof (cases "idx < 0 \<or> int (length xs) \<le> idx")
  case True
  then show ?thesis using assms
    by (simp add: handleEventRemove_def nth_opt_def DecodeRemoveEvent_def)
next
  case False
  then have lt: "nat idx < length xs" by linarith
  then have "removeAt xs (nat idx) = Some (take (nat idx) xs @ drop (Suc (nat idx)) xs)"
    by (rule removeAt_eq)
  then show ?thesis using assms False lt
    by (simp add: handleEventRemove_def nth_opt_def DecodeRemoveEvent_def installCollection_def)
qed

lemma noopEntry_present:
  "v \<noteq> ZeroValue \<Longrightarrow>
   noopEntry m (k, v) = (if v = DeleteValue then m k = None else m k = Some v)"
  by (auto simp: noopEntry_def mapGet_def split: option.splits)

lemma noopEntry_upd:
  "k \<noteq> fst kv \<Longrightarrow> noopEntry (m(k := x)) kv = noopEntry m kv"
  by (simp add: noopEntry_def mapGet_def)

lemma updateModel_spec:
  "distinct (map fst rest) \<Longrightarrow>
   updateModel rest m props =
     (changedModel m rest,
      filter (\<lambda>kv. fst kv \<notin> fst ` {e \<in> set rest. noopEntry m e}) props)"
proof (induction rest arbitrary: m props)
  case Nil
  then show ?case by (simp add: changedModel_def)
next
  case (Cons a rest)
  obtain k v where a: "a = (k, v)" by (cases a)
  have d: "distinct (map fst rest)" and kn: "k \<notin> fst ` set rest"
    using Cons.prems a by auto
  have mo: "map_of rest k = None" using kn by (simp add: map_of_eq_None_iff)
  have same: "\<And>x. {e \<in> set rest. noopEntry (m(k := x)) e} = {e \<in> set rest. noopEntry m e}"
    using kn noopEntry_upd by (metis (no_types, lifting) imageI)
  have cm_upd: "\<And>x. changedModel (m(k := x)) rest = (changedModel m rest)(k := x)"
    using mo by (auto simp: changedModel_def mapGet_def fun_eq_iff split: option.splits)
  have cm_same: "changedModel m rest k = m k" using mo by (simp add: changedModel_def)
  have cmC: "changedModel m ((k, v) # rest)
      = (changedModel m rest)(k := if v = DeleteValue then None
                                   else if mapGet m k = v then m k else Some v)"
    by (auto simp: changedModel_def fun_eq_iff split: option.splits)
  show ?case
  proof (cases "noopEntry m (k, v)")
    case True
    then have cond: "(v = DeleteValue \<and> m k = None) \<or> (v \<noteq> DeleteValue \<and> mapGet m k = v)"
      by (auto simp: noopEntry_def split: if_splits)
    have "updateModel (a # rest) m props = updateModel rest m (deleteKey k props)"
      using cond a by (auto simp: isDelete_def Equal_def)
    also have "\<dots> = (changedModel m rest,
        filter (\<lambda>kv. fst kv \<notin> fst ` {e \<in> set rest. noopEntry m e}) (deleteKey k props))"
      by (rule Cons.IH[OF d])
    also have "changedModel m rest = changedModel m (a # rest)"
      using cond a cmC cm_same by (auto simp: fun_eq_iff)
    also have "filter (\<lambda>kv. fst kv \<notin> fst ` {e \<in> set rest. noopEntry m e}) (deleteKey k props)
        = filter (\<lambda>kv. fst kv \<notin> fst ` {e \<in> set (a # rest). noopEntry m e}) props"
    proof -
      have S: "fst ` {e \<in> set (a # rest). noopEntry m e}
          = insert k (fst ` {e \<in> set rest. noopEntry m e})"
      proof -
        have "{e \<in> set (a # rest). noopEntry m e} = insert (k, v) {e \<in> set rest. noopEntry m e}"
          using True a by auto
        then show ?thesis by simp
      qed
      show ?thesis unfolding S deleteKey_def filter_filter
        by (intro filter_cong) auto
    qed
    finally show ?thesis .
  next
    case False
    then have cond: "(v = DeleteValue \<and> m k \<noteq> None) \<or> (v \<noteq> DeleteValue \<and> mapGet m k \<noteq> v)"
      by (auto simp: noopEntry_def split: if_splits)
    let ?m1 = "m(k := if v = DeleteValue then None else Some v)"
    have "updateModel (a # rest) m props = updateModel rest ?m1 props"
      using cond a by (auto simp: isDelete_def Equal_def)
    also have "\<dots> = (changedModel ?m1 rest,
        filter (\<lambda>kv. fst kv \<notin> fst ` {e \<in> set rest. noopEntry ?m1 e}) props)"
      by (rule Cons.IH[OF d])
    also have "changedModel ?m1 rest = changedModel m (a # rest)"
      using a cmC cm_upd cond by auto
    also have "{e \<in> set rest. noopEntry ?m1 e} = {e \<in> set (a # rest). noopEntry m e}"
      using same False a by auto
    finally show ?thesis .
  qed
qed

lemma updateModel_props:
  assumes "distinct (map fst props)"
  shows "updateModel props m props
           = (changedModel m props, filter (\<lambda>kv. \<not> noopEntry m kv) props)"
proof -
  have "\<And>kv. kv \<in> set props \<Longrightarrow>
      (fst kv \<notin> fst ` {e \<in> set props. noopEntry m e}) = (\<not> noopEntry m kv)"
  proof -
    fix kv assume kv: "kv \<in> set props"
    have "\<And>e. e \<in> set props \<Longrightarrow> fst e = fst kv \<Longrightarrow> e = kv"
      using assms(1) kv by (metis eq_key_imp_eq_value prod.collapse)
    then show "(fst kv \<notin> fst ` {e \<in> set props. noopEntry m e}) = (\<not> noopEntry m kv)"
      using kv by auto
  qed
  then have "filter (\<lambda>kv. fst kv \<notin> fst ` {e \<in> set props. noopEntry m e}) props
      = filter (\<lambda>kv. \<not> noopEntry m kv) props"
    by (intro filter_cong) auto
  then show ?thesis using updateModel_spec[OF assms, of m props] by simp
qed

lemma handleEventChange_eq:
  assumes p: "p < length (rss w)" and st: "state (rss w ! p) \<noteq> stateCollection"
    and mp: "model (rss w ! p) = Some mp" and m: "modelValues (heap w) mp = Some m"
    and pl: "Payload r = ChangePayload props \<or> Payload r = LegacyChangePayload props"
    and d: "distinct (map fst props)"
  shows "handleEventChange w p r =
     (if list_all (noopEntry m) props
      then Some (if IsLegacyChangeEvent (Payload r)
                 then logError w DeprecatedModelChangeEvent else w, r, False)
      else Some (installModel
                   (if IsLegacyChangeEvent (Payload r)
                    then logError w DeprecatedModelChangeEvent else w)
                   p (changedModel m props),
                 r\<lparr>Changed := filter (\<lambda>kv. \<not> noopEntry m kv) props, OldValues := Some mp\<rparr>,
                 True))"
proof -
  have e: "(filter (\<lambda>kv. \<not> noopEntry m kv) props = []) = list_all (noopEntry m) props"
    by (auto simp: filter_empty_conv list_all_iff)
  show ?thesis
    using pl
  proof
    assume "Payload r = ChangePayload props"
    then show ?thesis using p st mp m e
      by (simp add: handleEventChange_def nth_opt_def IsLegacyChangeEvent_def
          DecodeChangeEvent_def updateModel_props[OF d] installModel_def)
  next
    assume "Payload r = LegacyChangePayload props"
    then show ?thesis using p st mp m e
      by (simp add: handleEventChange_def nth_opt_def IsLegacyChangeEvent_def
          DecodeLegacyChangeEvent_def updateModel_props[OF d] installModel_def logError_def)
  qed
qed

lemma grows_refl: "loadedOk w p \<Longrightarrow> grows w w p"
  by (simp add: grows_def freshOrSame_def)

lemma loadedOk_same:
  "rss w' = rss w \<Longrightarrow> heap w' = heap w \<Longrightarrow> loadedOk w' p = loadedOk w p"
  by (simp add: loadedOk_def cong: option.case_cong)

lemma grows_same:
  "loadedOk w p \<Longrightarrow> rss w' = rss w \<Longrightarrow> heap w' = heap w \<Longrightarrow> grows w w' p"
  using loadedOk_same[of w' w p] by (simp add: grows_def freshOrSame_def)

lemma grows_trans: "grows w w1 p \<Longrightarrow> grows w1 w2 p \<Longrightarrow> grows w w2 p"
proof -
  assume a: "grows w w1 p" and b: "grows w1 w2 p"
  have t: "prefix (heap w) (heap w2)"
    using a b unfolding grows_def by (meson prefix_order.trans)
  have le: "length (heap w) \<le> length (heap w1)"
    using a unfolding grows_def by (simp add: prefix_length_le)
  have f: "\<And>x y z. freshOrSame x y (length (heap w)) \<Longrightarrow> freshOrSame y z (length (heap w1))
      \<Longrightarrow> freshOrSame x z (length (heap w))"
    using le by (auto simp: freshOrSame_def split: option.splits)
  show ?thesis
    unfolding grows_def
    using t a b f[of "model (rss w ! p)" "model (rss w1 ! p)" "model (rss w2 ! p)"]
      f[of "collection (rss w ! p)" "collection (rss w1 ! p)" "collection (rss w2 ! p)"]
    by (simp add: grows_def)
qed

lemma modelValues_append:
  "modelValues h a = Some m \<Longrightarrow> modelValues (h @ xs) a = Some m"
  by (auto simp: modelValues_def nth_opt_def nth_append split: if_splits)

lemma collectionValues_append:
  "collectionValues h a = Some m \<Longrightarrow> collectionValues (h @ xs) a = Some m"
  by (auto simp: collectionValues_def nth_opt_def nth_append split: if_splits)

lemma grows_log: "loadedOk w p \<Longrightarrow> grows w (logError w l) p"
  by (rule grows_same) (simp_all add: logError_def)

lemma change_step:
  assumes ok: "loadedOk w p"
    and st: "state (rss w ! p) = stateModel \<or> state (rss w ! p) = stateCollection"
  shows "\<exists>w' r' b. handleEventChange w p r = Some (w', r', b) \<and> grows w w' p
           \<and> subs (rss w' ! p) = subs (rss w ! p)"
proof (cases "state (rss w ! p) = stateCollection")
  case True
  then have "handleEventChange w p r = Some (logError w ErrChangeOnCollection, r, False)"
    using ok by (simp add: handleEventChange_def loadedOk_def nth_opt_def)
  then show ?thesis using grows_log[OF ok] by (auto simp: logError_def)
next
  case False
  then have sm: "state (rss w ! p) = stateModel" using st by simp
  obtain a m where a: "model (rss w ! p) = Some a" "modelValues (heap w) a = Some m"
    using ok sm by (auto simp: loadedOk_def split: option.splits)
  define w1 where "w1 = (if IsLegacyChangeEvent (Payload r)
                         then logError w DeprecatedModelChangeEvent else w)"
  define dec where "dec = (if IsLegacyChangeEvent (Payload r)
                           then DecodeLegacyChangeEvent (Payload r)
                           else DecodeChangeEvent (Payload r))"
  define w2 where "w2 = (case snd dec of None \<Rightarrow> w1 | Some e' \<Rightarrow> logError w1 (ErrDecode e'))"
  obtain m' props' where um: "updateModel (fst dec) m (fst dec) = (m', props')"
    by (cases "updateModel (fst dec) m (fst dec)")
  have h2: "heap w2 = heap w" "rss w2 = rss w"
    by (auto simp: w2_def w1_def logError_def split: option.splits)
  have g2: "grows w w2 p" using ok h2 by (simp add: grows_same)
  have hc: "handleEventChange w p r =
     (if length props' = 0 then Some (w2, r, False)
      else Some (w2\<lparr>heap := heap w2 @ [MkModel m'],
                    rss := (rss w2)[p := (rss w ! p)\<lparr>model := Some (length (heap w2))\<rparr>]\<rparr>,
                 r\<lparr>Changed := props', OldValues := Some a\<rparr>, True))"
    using ok sm a um h2
    by (simp add: handleEventChange_def loadedOk_def nth_opt_def Let_def w1_def[symmetric]
        dec_def[symmetric] w2_def[symmetric] split_beta)
  show ?thesis
  proof (cases "length props' = 0")
    case True
    then show ?thesis using hc g2 h2 by auto
  next
    case F: False
    let ?w' = "w2\<lparr>heap := heap w2 @ [MkModel m'],
                    rss := (rss w2)[p := (rss w ! p)\<lparr>model := Some (length (heap w2))\<rparr>]\<rparr>"
    have "loadedOk ?w' p"
      using ok sm h2 by (simp add: loadedOk_def modelValues_def nth_opt_def)
    moreover have "p < length (rss w)" using ok by (simp add: loadedOk_def)
    ultimately have "grows w ?w' p"
      using h2 by (simp add: grows_def freshOrSame_def)
    moreover have "subs (rss ?w' ! p) = subs (rss w ! p)"
      using ok h2 by (simp add: loadedOk_def)
    ultimately show ?thesis using hc F by auto
  qed
qed

lemma grows_installCollection:
  assumes ok: "loadedOk w p" and st: "state (rss w ! p) = stateCollection"
  shows "grows w (installCollection w p col) p"
proof -
  have p: "p < length (rss w)" using ok by (simp add: loadedOk_def)
  have "loadedOk (installCollection w p col) p"
    using p st by (simp add: loadedOk_def installCollection_def collectionValues_def nth_opt_def)
  then show ?thesis
    using p by (simp add: grows_def freshOrSame_def installCollection_def)
qed

lemma add_step:
  assumes ok: "loadedOk w p"
    and st: "state (rss w ! p) = stateModel \<or> state (rss w ! p) = stateCollection"
  shows "\<exists>w' r' b. handleEventAdd w p r = Some (w', r', b) \<and> grows w w' p
           \<and> subs (rss w' ! p) = subs (rss w ! p)"
proof (cases "state (rss w ! p) = stateModel")
  case True
  then have "handleEventAdd w p r = Some (logError w ErrAddOnModel, r, False)"
    using ok by (simp add: handleEventAdd_def loadedOk_def nth_opt_def)
  then show ?thesis using grows_log[OF ok] by (auto simp: logError_def)
next
  case False
  then have sc: "state (rss w ! p) = stateCollection" using st by simp
  have p: "p < length (rss w)" using ok by (simp add: loadedOk_def)
  obtain a xs where a: "collection (rss w ! p) = Some a" "collectionValues (heap w) a = Some xs"
    using ok sc by (auto simp: loadedOk_def split: option.splits)
  show ?thesis
  proof (cases "DecodeAddEvent (Payload r)")
    case (Inl e')
    then have "handleEventAdd w p r = Some (logError w (ErrDecode e'), r, False)"
      using p False by (simp add: handleEventAdd_def nth_opt_def)
    then show ?thesis using grows_log[OF ok] by (auto simp: logError_def)
  next
    case (Inr iv)
    then obtain idx v where pl: "Payload r = AddPayload idx v"
      by (auto simp: DecodeAddEvent_def split: Payload.splits)
    show ?thesis
    proof (cases "idx < 0 \<or> int (length xs) < idx")
      case True
      then have "handleEventAdd w p r = Some (logError w (ErrOutOfBounds idx), r, False)"
        using handleEventAdd_eq[OF p False a pl] by simp
      then show ?thesis using grows_log[OF ok] by (auto simp: logError_def)
    next
      case F: False
      then have "handleEventAdd w p r =
          Some (installCollection w p (take (nat idx) xs @ v # drop (nat idx) xs),
                r\<lparr>Idx := idx, Value := v\<rparr>, True)"
        using handleEventAdd_eq[OF p False a pl] by simp
      moreover have "subs (rss (installCollection w p (take (nat idx) xs @ v # drop (nat idx) xs)) ! p)
          = subs (rss w ! p)"
        using p by (simp add: installCollection_def)
      ultimately show ?thesis using grows_installCollection[OF ok sc] by blast
    qed
  qed
qed

lemma remove_step:
  assumes ok: "loadedOk w p"
    and st: "state (rss w ! p) = stateModel \<or> state (rss w ! p) = stateCollection"
  shows "\<exists>w' r' b. handleEventRemove w p r = Some (w', r', b) \<and> grows w w' p
           \<and> subs (rss w' ! p) = subs (rss w ! p)"
proof (cases "state (rss w ! p) = stateModel")
  case True
  then have "handleEventRemove w p r = Some (logError w ErrRemoveOnModel, r, False)"
    using ok by (simp add: handleEventRemove_def loadedOk_def nth_opt_def)
  then show ?thesis using grows_log[OF ok] by (auto simp: logError_def)
next
  case False
  then have sc: "state (rss w ! p) = stateCollection" using st by simp
  have p: "p < length (rss w)" using ok by (simp add: loadedOk_def)
  obtain a xs where a: "collection (rss w ! p) = Some a" "collectionValues (heap w) a = Some xs"
    using ok sc by (auto simp: loadedOk_def split: option.splits)
  show ?thesis
  proof (cases "DecodeRemoveEvent (Payload r)")
    case (Inl e')
    then have "handleEventRemove w p r = Some (logError w (ErrDecode e'), r, False)"
      using p False by (simp add: handleEventRemove_def nth_opt_def)
    then show ?thesis using grows_log[OF ok] by (auto simp: logError_def)
  next
    case (Inr idx)
    then have pl: "Payload r = RemovePayload idx"
      by (auto simp: DecodeRemoveEvent_def split: Payload.splits)
    show ?thesis
    proof (cases "idx < 0 \<or> int (length xs) \<le> idx")
      case True
      then have "handleEventRemove w p r = Some (logError w (ErrOutOfBounds idx), r, False)"
        using handleEventRemove_eq[OF p False a pl] by simp
      then show ?thesis using grows_log[OF ok] by (auto simp: logError_def)
    next
      case F: False
      then have "handleEventRemove w p r =
          Some (installCollection w p (take (nat idx) xs @ drop (Suc (nat idx)) xs),
                r\<lparr>Value := xs ! nat idx, Idx := idx\<rparr>, True)"
        using handleEventRemove_eq[OF p False a pl] by simp
      moreover have "subs (rss (installCollection w p (take (nat idx) xs @ drop (Suc (nat idx)) xs)) ! p)
          = subs (rss w ! p)"
        using p by (simp add: installCollection_def)
      ultimately show ?thesis using grows_installCollection[OF ok sc] by blast
    qed
  qed
qed

lemma delete_step:
  assumes ok: "loadedOk w p"
  shows "\<exists>w' cs. handleEventDelete w p r = Some (w', cs) \<and> grows w w' p"
proof -
  have p: "p < length (rss w)" using ok by (simp add: loadedOk_def)
  let ?w' = "removeCount
             (w\<lparr>es := unregistered (es w) (query (rss w ! p)) (links (rss w ! p)),
                rss := (rss w)[p := (rss w ! p)\<lparr>subs := None, links := []\<rparr>]\<rparr>)
             (int (length (subsList (subs (rss w ! p)))))"
  have "loadedOk ?w' p"
    using ok by (simp add: loadedOk_def removeCount_def cong: option.case_cong)
  then have "grows w ?w' p"
    using p by (simp add: grows_def freshOrSame_def removeCount_def)
  then show ?thesis using handleEventDelete_eq[OF p, of r] by blast
qed

lemma stateByte_loaded:
  "(\<not> stateByte s \<le> stateByte stateRequested) = (s = stateModel \<or> s = stateCollection)"
  by (cases s) auto

lemma handleEvent_step:
  assumes ok: "loadedOk w p"
  shows "\<exists>w' r' cs. handleEvent w p r = Some (w', r', cs) \<and> grows w w' p"
proof -
  have p: "p < length (rss w)" using ok by (simp add: loadedOk_def)
  show ?thesis
  proof (cases "stateByte (state (rss w ! p)) \<le> stateByte stateRequested")
    case True
    show ?thesis
    proof (cases "Event r = ''reaccess''")
      case False
      then have "handleEvent w p r = Some (w, r, [])"
        using p True by (simp add: handleEvent_def nth_opt_def)
      then show ?thesis using grows_refl[OF ok] by blast
    next
      case R: True
      then have "handleEvent w p r
          = Some (w, r, map (\<lambda>s. EventCall s r) (subsList (subs (rss w ! p))))"
        using p by (simp add: handleEvent_def nth_opt_def notifySubs_def)
      then show ?thesis using grows_refl[OF ok] by blast
    qed
  next
    case False
    then have st: "state (rss w ! p) = stateModel \<or> state (rss w ! p) = stateCollection"
      using stateByte_loaded[of "state (rss w ! p)"] by blast
    consider (res) "resetting (rss w ! p)"
        "Event r = ''change'' \<or> Event r = ''add'' \<or> Event r = ''remove'' \<or> Event r = ''delete''"
      | (chg) "\<not> resetting (rss w ! p)" "Event r = ''change''"
      | (add) "\<not> resetting (rss w ! p)" "Event r = ''add''"
      | (rem) "\<not> resetting (rss w ! p)" "Event r = ''remove''"
      | (del) "\<not> resetting (rss w ! p)" "Event r = ''delete''"
      | (oth) "Event r \<noteq> ''change''" "Event r \<noteq> ''add''" "Event r \<noteq> ''remove''"
          "Event r \<noteq> ''delete''"
      by blast
    then show ?thesis
    proof cases
      case res
      then have "handleEvent w p r = Some (w, r, [])"
        using p False by (auto simp: handleEvent_def nth_opt_def)
      then show ?thesis using grows_refl[OF ok] by blast
    next
      case chg
      obtain w' r' b where h: "handleEventChange w p r = Some (w', r', b)" "grows w w' p"
        using change_step[OF ok st, of r] by blast
      then have p': "p < length (rss w')" by (simp add: grows_def loadedOk_def)
      have "\<exists>cs. handleEvent w p r = Some (w', r', cs)"
        using p p' False chg h(1) by (simp add: handleEvent_def nth_opt_def notifySubs_def)
      then show ?thesis using h(2) by blast
    next
      case add
      obtain w' r' b where h: "handleEventAdd w p r = Some (w', r', b)" "grows w w' p"
        using add_step[OF ok st, of r] by blast
      then have p': "p < length (rss w')" by (simp add: grows_def loadedOk_def)
      have "\<exists>cs. handleEvent w p r = Some (w', r', cs)"
        using p p' False add h(1) by (simp add: handleEvent_def nth_opt_def notifySubs_def)
      then show ?thesis using h(2) by blast
    next
      case rem
      obtain w' r' b where h: "handleEventRemove w p r = Some (w', r', b)" "grows w w' p"
        using remove_step[OF ok st, of r] by blast
      then have p': "p < length (rss w')" by (simp add: grows_def loadedOk_def)
      have "\<exists>cs. handleEvent w p r = Some (w', r', cs)"
        using p p' False rem h(1) by (simp add: handleEvent_def nth_opt_def notifySubs_def)
      then show ?thesis using h(2) by blast
    next
      case del
      obtain w' cs where h: "handleEventDelete w p r = Some (w', cs)" "grows w w' p"
        using delete_step[OF ok, of r] by blast
      have "handleEvent w p r = Some (w', r, cs)"
        using p False del h(1) by (simp add: handleEvent_def nth_opt_def)
      then show ?thesis using h(2) by blast
    next
      case oth
      then have "handleEvent w p r
          = Some (w, r, map (\<lambda>s. EventCall s r) (subsList (subs (rss w ! p))))"
        using p False by (simp add: handleEvent_def nth_opt_def notifySubs_def)
      then show ?thesis using grows_refl[OF ok] by blast
    qed
  qed
qed

lemma handleEvents_grows:
  "loadedOk w p \<Longrightarrow> \<exists>w' cs. handleEvents w p evs = Some (w', cs) \<and> grows w w' p"
proof (induction evs arbitrary: w)
  case Nil
  then show ?case using grows_refl by simp
next
  case (Cons r evs)
  obtain w1 r1 cs1 where s: "handleEvent w p r = Some (w1, r1, cs1)" "grows w w1 p"
    using handleEvent_step[OF Cons.prems, of r] by blast
  then have "loadedOk w1 p" by (simp add: grows_def)
  then obtain w2 cs2 where t: "handleEvents w1 p evs = Some (w2, cs2)" "grows w1 w2 p"
    using Cons.IH by blast
  have "handleEvents w p (r # evs) = Some (w2, cs1 @ cs2)" using s(1) t(1) by simp
  then show ?case using grows_trans[OF s(2) t(2)] by blast
qed

lemma distinct_subsList: "distinct (subsList s)"
  by (cases s) (simp_all add: subsList_def)

lemma getResourceSubscription_old:
  assumes "getResourceSubscription w q = (w1, np)" "a < length (rss w)"
  shows "rss w1 ! a = rss w ! a" "a < length (rss w1)" "heap w1 = heap w"
  using assms
  by (auto simp: getResourceSubscription_def nth_append split: if_splits option.splits)

lemma copySubs_eq:
  "np < length (rss w) \<Longrightarrow> subs (rss w ! np) = Some d \<Longrightarrow>
   copySubs ss w np =
     Some (w\<lparr>rss := (rss w)[np := (rss w ! np)\<lparr>subs := Some (fold Dlist.insert ss d)\<rparr>]\<rparr>)"
proof (induction ss arbitrary: w d)
  case Nil
  have "(rss w ! np)\<lparr>subs := Some d\<rparr> = rss w ! np"
    using Nil(2) by simp
  then have "(rss w)[np := (rss w ! np)\<lparr>subs := Some d\<rparr>] = rss w"
    by (simp only: list_update_id)
  then show ?case by simp
next
  case (Cons s ss)
  let ?w1 = "w\<lparr>rss := (rss w)[np := (rss w ! np)\<lparr>subs := Some (Dlist.insert s d)\<rparr>]\<rparr>"
  have "copySubs (s # ss) w np = copySubs ss ?w1 np"
    using Cons.prems by (simp add: nth_opt_def)
  also have "\<dots> = Some (?w1\<lparr>rss := (rss ?w1)[np := (rss ?w1 ! np)\<lparr>subs :=
       Some (fold Dlist.insert ss (Dlist.insert s d))\<rparr>]\<rparr>)"
    by (rule Cons.IH) (use Cons.prems in simp_all)
  finally show ?case using Cons.prems by simp
qed

lemma set_fold_insert:
  "set (list_of_dlist (fold Dlist.insert ss d)) = set ss \<union> set (list_of_dlist d)"
  by (induction ss arbitrary: d) auto

lemma fold_insert_members:
  "set ss \<subseteq> set (list_of_dlist d) \<Longrightarrow> fold Dlist.insert ss d = d"
proof (induction ss arbitrary: d)
  case Nil
  then show ?case by simp
next
  case (Cons s ss)
  then have "Dlist.insert s d = d"
    by (intro dlist_eqI) (simp add: List.insert_def)
  then show ?case using Cons by simp
qed

lemma linkNormalized_eq:
  assumes p: "p < length (rss w)"
    and g: "getResourceSubscription w q' = (w1, np)"
    and npv: "np < length (rss w1)"
    and sd: "subs (rss w1 ! np) = Some d"
  shows "linkNormalized w p q' =
     Some (w1\<lparr>es := (if query (rss w ! p) = [] then (es w1)\<lparr>base := Some np\<rparr>
                       else (es w1)\<lparr>elinks :=
                                Some ((case elinks (es w1) of None \<Rightarrow> Map.empty | Some l \<Rightarrow> l)
                                        (query (rss w ! p) \<mapsto> np)),
                              queries := (queries (es w1))(query (rss w ! p) := None)\<rparr>),
              rss := (rss w1)[np := (rss w1 ! np)
                         \<lparr>links := links (rss w1 ! np) @ [query (rss w ! p)],
                          subs := Some (fold Dlist.insert (subsList (subs (rss w ! p))) d)\<rparr>]\<rparr>,
           np)"
proof -
  let ?rs = "rss w ! p"
  let ?nrs = "rss w1 ! np"
  let ?e1 = "(if query ?rs = [] then (es w1)\<lparr>base := Some np\<rparr>
                       else (es w1)\<lparr>elinks :=
                                Some ((case elinks (es w1) of None \<Rightarrow> Map.empty | Some l \<Rightarrow> l)
                                        (query ?rs \<mapsto> np)),
                              queries := (queries (es w1))(query ?rs := None)\<rparr>)"
  let ?w3 = "w1\<lparr>es := ?e1, rss := (rss w1)[np := ?nrs\<lparr>links := links ?nrs @ [query ?rs]\<rparr>]\<rparr>"
  have old: "rss w1 ! p = ?rs" "p < length (rss w1)"
    using getResourceSubscription_old[OF g p] by auto
  have s3: "subs (rss ?w3 ! p) = subs ?rs"
  proof (cases "np = p")
    case True
    then show ?thesis using old npv by simp
  next
    case False
    then show ?thesis using old by simp
  qed
  have cs: "copySubs (subsList (subs ?rs)) ?w3 np =
     Some (?w3\<lparr>rss := (rss ?w3)[np := (rss ?w3 ! np)\<lparr>subs :=
        Some (fold Dlist.insert (subsList (subs ?rs)) d)\<rparr>]\<rparr>)"
    by (rule copySubs_eq) (use npv sd in simp_all)
  have fin: "?w3\<lparr>rss := (rss ?w3)[np := (rss ?w3 ! np)\<lparr>subs :=
        Some (fold Dlist.insert (subsList (subs ?rs)) d)\<rparr>]\<rparr>
      = w1\<lparr>es := ?e1,
            rss := (rss w1)[np := ?nrs\<lparr>links := links ?nrs @ [query ?rs],
                          subs := Some (fold Dlist.insert (subsList (subs ?rs)) d)\<rparr>]\<rparr>"
    using npv by simp
  have p3: "p < length (rss ?w3)" using old by simp
  have "linkNormalized w p q' =
      do { w4 \<leftarrow> copySubs (subsList (subs (rss ?w3 ! p))) ?w3 np; Some (w4, np) }"
    unfolding linkNormalized_def g
    using old npv p3 by (simp add: nth_opt_def Let_def)
  then show ?thesis using s3 cs fin by simp
qed

lemma subsList_fold_self:
  "subs x = Some d \<Longrightarrow> fold Dlist.insert (subsList (subs x)) d = d"
  by (rule fold_insert_members) (simp add: subsList_def)

text \<open>
  \<open>applyEvent\<close> is what \<^verbatim>\<open>handleEvent\<close> does to the collection of a subscription
  that is in state Collection and not resetting.
\<close>

lemma handleEvent_applyEvent:
  assumes p: "p < length (rss w)" and st: "state (rss w ! p) = stateCollection"
    and nr: "\<not> resetting (rss w ! p)"
    and cp: "collection (rss w ! p) = Some cp" and xs: "collectionValues (heap w) cp = Some xs"
    and ap: "applyEvent xs r = Some ys"
  shows "\<exists>r'. handleEvent w p r
           = Some (installCollection w p ys, r',
                   map (\<lambda>s. EventCall s r') (subsList (subs (rss w ! p))))"
proof -
  have nm: "state (rss w ! p) \<noteq> stateModel" using st by simp
  have sub: "\<And>col. subs (rss (installCollection w p col) ! p) = subs (rss w ! p)"
    "\<And>col. p < length (rss (installCollection w p col))"
    using p by (simp_all add: installCollection_def)
  consider (add) "Event r = ''add''" | (rem) "Event r = ''remove''"
    using ap by (auto simp: applyEvent_def split: if_splits)
  then show ?thesis
  proof cases
    case add
    then obtain idx v where pl: "Payload r = AddPayload idx v"
      and b: "\<not> (idx < 0 \<or> int (length xs) < idx)"
      and ys: "insertAt xs (nat idx) v = Some ys"
      using ap
      by (auto simp: applyEvent_def DecodeAddEvent_def split: Payload.splits if_splits)
    have "nat idx \<le> length xs" using b by linarith
    then have "ys = take (nat idx) xs @ v # drop (nat idx) xs"
      using insertAt_eq[of "nat idx" xs v] ys by simp
    then have "handleEventAdd w p r = Some (installCollection w p ys, r\<lparr>Idx := idx, Value := v\<rparr>, True)"
      using handleEventAdd_eq[OF p nm cp xs pl] b by simp
    then show ?thesis using p st nr add sub
      by (simp add: handleEvent_def nth_opt_def notifySubs_def)
  next
    case rem
    then obtain idx where pl: "Payload r = RemovePayload idx"
      and b: "\<not> (idx < 0 \<or> int (length xs) \<le> idx)"
      and ys: "removeAt xs (nat idx) = Some ys"
      using ap
      by (auto simp: applyEvent_def DecodeRemoveEvent_def split: Payload.splits if_splits)
    have "nat idx < length xs" using b by linarith
    then have "ys = take (nat idx) xs @ drop (Suc (nat idx)) xs"
      using removeAt_eq[of "nat idx" xs] ys by simp
    then have "handleEventRemove w p r
        = Some (installCollection w p ys, r\<lparr>Value := xs ! nat idx, Idx := idx\<rparr>, True)"
      using handleEventRemove_eq[OF p nm cp xs pl] b by simp
    then show ?thesis using p st nr rem sub
      by (simp add: handleEvent_def nth_opt_def notifySubs_def)
  qed
qed

section \<open>Claims about the diff engine\<close>

text \<open>
  C1. For all value sequences \<open>a\<close> and \<open>b\<close>, \<^verbatim>\<open>lcs(a, b)\<close> returns (it does not panic)
  a sequence of events that is a block of remove events followed by a block of add events;
  its length is \<open>|a| + |b| - 2 * |LCS(a, b)|\<close>, stated without subtraction; applied in
  order to \<open>a\<close>, each remove deleting at its index and each add inserting at its index, it
  yields exactly \<open>b\<close>; and for equal sequences the result is empty. \<open>LCS_length\<close> is
  the length of a longest common subsequence (\<open>LCS_length_attained\<close>,
  \<open>LCS_length_upper\<close>), and \<open>applyEvents\<close> applies events as the event handlers do
  (\<open>handleEvent_applyEvent\<close>).
\<close>

theorem lcs_edit_script:
  "(\<exists>rems adds. lcs a b = Some (rems @ adds)
      \<and> list_all (\<lambda>e. Event e = ''remove'') rems
      \<and> list_all (\<lambda>e. Event e = ''add'') adds
      \<and> length (rems @ adds) + 2 * LCS_length a b = length a + length b
      \<and> applyEvents a (rems @ adds) = Some b)
   \<and> lcs a a = Some []"
proof -
  obtain R A s bb where h: "lcs a b = Some (map remEv R @ map (addRecEv s bb) A)"
     "length R + length A + 2 * LCS_length a b = length a + length b"
     "applyEvents a (map remEv R @ map (addRecEv s bb) A) = Some b"
    using lcs_main[of a b] by blast
  have "list_all (\<lambda>e. Event e = ''remove'') (map remEv R)"
    by (simp add: list_all_iff remEv_def newEvent_def)
  moreover have "list_all (\<lambda>e. Event e = ''add'') (map (addRecEv s bb) A)"
    by (simp add: list_all_iff addRecEv_def addEv_def newEvent_def)
  moreover have "length (map remEv R @ map (addRecEv s bb) A) + 2 * LCS_length a b
      = length a + length b"
    using h(2) by simp
  ultimately show ?thesis using h(1,3) lcs_same by blast
qed

text \<open>
  C3, as the spec states it: for the old collection \<open>[A, B, C, D]\<close> and the new collection
  \<open>[A, X, C, Y, D]\<close>, \<^verbatim>\<open>lcs\<close> produces exactly \<open>add{idx:1, value:X}\<close> and then
  \<open>add{idx:3, value:Y}\<close>, with no remove event. This fails: \<open>B\<close> is not in the new
  collection, and the two add events alone turn the old collection into
  \<open>[A, X, B, Y, C, D]\<close>.
\<close>

theorem lcs_S5_not_adds_only:
  "lcs [Primitive ''A'', Primitive ''B'', Primitive ''C'', Primitive ''D'']
       [Primitive ''A'', Primitive ''X'', Primitive ''C'', Primitive ''Y'', Primitive ''D'']
     \<noteq> Some [addEv 1 (Primitive ''X''), addEv 3 (Primitive ''Y'')]
   \<and> applyEvents [Primitive ''A'', Primitive ''B'', Primitive ''C'', Primitive ''D'']
        [addEv 1 (Primitive ''X''), addEv 3 (Primitive ''Y'')]
     = Some [Primitive ''A'', Primitive ''X'', Primitive ''B'', Primitive ''Y'',
             Primitive ''C'', Primitive ''D'']"
  by code_simp

text \<open>
  C3, amended: for the old collection \<open>[A, B, C, D]\<close> and the new collection
  \<open>[A, X, C, Y, D]\<close>, \<^verbatim>\<open>lcs\<close> produces exactly \<open>remove{idx:1}\<close>, then
  \<open>add{idx:1, value:X}\<close>, then \<open>add{idx:3, value:Y}\<close>; each index addresses the sequence
  as it is when the event is applied, the intermediate collections being \<open>[A, C, D]\<close>,
  \<open>[A, X, C, D]\<close> and \<open>[A, X, C, Y, D]\<close>.
\<close>

theorem lcs_S5_events:
  "map_option (map (\<lambda>e. (Event e, Payload e)))
     (lcs [Primitive ''A'', Primitive ''B'', Primitive ''C'', Primitive ''D'']
          [Primitive ''A'', Primitive ''X'', Primitive ''C'', Primitive ''Y'', Primitive ''D''])
     = Some [(''remove'', RemovePayload 1),
             (''add'', AddPayload 1 (Primitive ''X'')),
             (''add'', AddPayload 3 (Primitive ''Y''))]
   \<and> applyEvent [Primitive ''A'', Primitive ''B'', Primitive ''C'', Primitive ''D''] (remEv 1)
     = Some [Primitive ''A'', Primitive ''C'', Primitive ''D'']
   \<and> applyEvent [Primitive ''A'', Primitive ''C'', Primitive ''D''] (addEv 1 (Primitive ''X''))
     = Some [Primitive ''A'', Primitive ''X'', Primitive ''C'', Primitive ''D'']
   \<and> applyEvent [Primitive ''A'', Primitive ''X'', Primitive ''C'', Primitive ''D'']
        (addEv 3 (Primitive ''Y''))
     = Some [Primitive ''A'', Primitive ''X'', Primitive ''C'', Primitive ''Y'', Primitive ''D'']"
  by code_simp

section \<open>Claims about event handling\<close>

text \<open>
  C8. For every subscription whose state is at most Requested, \<^verbatim>\<open>handleEvent\<close> drops
  every event other than \<open>reaccess\<close>: the world and the event are unchanged and no
  subscriber is called. A \<open>reaccess\<close> event is forwarded to every subscriber, whatever the
  state.
\<close>

theorem handleEvent_before_load:
  "p < length (rss w) \<Longrightarrow>
   (stateByte (state (rss w ! p)) \<le> stateByte stateRequested \<longrightarrow> Event r \<noteq> ''reaccess'' \<longrightarrow>
      handleEvent w p r = Some (w, r, []))
   \<and> (Event r = ''reaccess'' \<longrightarrow>
      handleEvent w p r = Some (w, r, map (\<lambda>s. EventCall s r) (subsList (subs (rss w ! p)))))"
  by (simp add: handleEvent_def notifySubs_def nth_opt_def)

text \<open>
  An instance: a change event and a reaccess event for a subscription in state
  Requested with the subscribers 1 and 2.
\<close>

theorem handleEvent_before_load_witness:
  "handleEvent exRequested 0 (newEvent ''change'' (ChangePayload [(''a'', Primitive ''1'')]))
     = Some (exRequested, newEvent ''change'' (ChangePayload [(''a'', Primitive ''1'')]), [])
   \<and> handleEvent exRequested 0 (newEvent ''reaccess'' NoPayload)
     = Some (exRequested, newEvent ''reaccess'' NoPayload,
             [EventCall 1 (newEvent ''reaccess'' NoPayload),
              EventCall 2 (newEvent ''reaccess'' NoPayload)])"
  using handleEvent_before_load[of 0 exRequested
          "newEvent ''change'' (ChangePayload [(''a'', Primitive ''1'')])"]
        handleEvent_before_load[of 0 exRequested "newEvent ''reaccess'' NoPayload"]
  by (simp add: exRequested_def newEvent_def newResourceSubscription_def subsList_def)

text \<open>
  C2, as the spec states it, says that a delete event arriving while \<open>resetting\<close> is true
  is still applied. It is not: for a loaded subscription that is resetting and has the
  subscribers 1 and 2, \<^verbatim>\<open>handleEvent\<close> leaves the world unchanged and calls nobody.
\<close>

theorem handleEvent_delete_while_resetting_dropped:
  "resetting (rss exResetting ! 0)
   \<and> subsList (subs (rss exResetting ! 0)) = [1, 2]
   \<and> stateByte (state (rss exResetting ! 0)) > stateByte stateRequested
   \<and> handleEvent exResetting 0 (newEvent ''delete'' NoPayload)
     = Some (exResetting, newEvent ''delete'' NoPayload, [])"
  by (simp add: exResetting_def exModel_def newEvent_def newResourceSubscription_def
      subsList_def handleEvent_def nth_opt_def)

text \<open>
  C2, amended: while \<open>resetting\<close> is true, \<^verbatim>\<open>handleEvent\<close> drops change, add, remove and
  delete events alike, with no state change and no notification. A delete event is applied
  when \<open>resetting\<close> is false and the subscription is loaded: the subscribers are drained
  and each is called once, the subscription and its links are removed from the registry,
  and the count of the parent goes down by the number of subscribers.
\<close>

theorem handleEvent_resetting:
  "p < length (rss w) \<Longrightarrow>
   (resetting (rss w ! p) \<longrightarrow>
      Event r = ''change'' \<or> Event r = ''add'' \<or> Event r = ''remove'' \<or> Event r = ''delete'' \<longrightarrow>
      handleEvent w p r = Some (w, r, []))
   \<and> (\<not> resetting (rss w ! p) \<longrightarrow> stateByte (state (rss w ! p)) > stateByte stateRequested \<longrightarrow>
      Event r = ''delete'' \<longrightarrow>
      (\<exists>w'. handleEvent w p r
               = Some (w', r, map (\<lambda>s. EventCall s r) (subsList (subs (rss w ! p))))
          \<and> subs (rss w' ! p) = None \<and> links (rss w' ! p) = []
          \<and> registryCleared (es w') (query (rss w ! p)) (links (rss w ! p))
          \<and> count (es w') = count (es w) - int (length (subsList (subs (rss w ! p))))))"
proof (intro conjI impI)
  assume p: "p < length (rss w)" and "resetting (rss w ! p)"
    and "Event r = ''change'' \<or> Event r = ''add'' \<or> Event r = ''remove'' \<or> Event r = ''delete''"
  then show "handleEvent w p r = Some (w, r, [])"
    by (auto simp: handleEvent_def nth_opt_def)
next
  assume p: "p < length (rss w)" and nr: "\<not> resetting (rss w ! p)"
    and st: "stateByte (state (rss w ! p)) > stateByte stateRequested"
    and d: "Event r = ''delete''"
  let ?w' = "removeCount
             (w\<lparr>es := unregistered (es w) (query (rss w ! p)) (links (rss w ! p)),
                rss := (rss w)[p := (rss w ! p)\<lparr>subs := None, links := []\<rparr>]\<rparr>)
             (int (length (subsList (subs (rss w ! p)))))"
  have "handleEvent w p r = Some (?w', r, map (\<lambda>s. EventCall s r) (subsList (subs (rss w ! p))))"
    using p nr st d handleEventDelete_eq[OF p, of r]
    by (simp add: handleEvent_def nth_opt_def)
  moreover have "subs (rss ?w' ! p) = None" "links (rss ?w' ! p) = []"
    using p by (simp_all add: removeCount_def)
  moreover have "registryCleared (es ?w') (query (rss w ! p)) (links (rss w ! p))"
    by (simp add: removeCount_def registryCleared_count registryCleared_unregistered)
  moreover have "count (es ?w') = count (es w) - int (length (subsList (subs (rss w ! p))))"
    by (simp add: removeCount_def unregistered_def)
  ultimately show "\<exists>w'. handleEvent w p r
               = Some (w', r, map (\<lambda>s. EventCall s r) (subsList (subs (rss w ! p))))
          \<and> subs (rss w' ! p) = None \<and> links (rss w' ! p) = []
          \<and> registryCleared (es w') (query (rss w ! p)) (links (rss w ! p))
          \<and> count (es w') = count (es w) - int (length (subsList (subs (rss w ! p))))"
    by blast
qed

text \<open>
  An instance: an add event for the resetting subscription, and a delete event for the
  same subscription when it is not resetting.
\<close>

theorem handleEvent_resetting_witness:
  "handleEvent exResetting 0 (newEvent ''add'' (AddPayload 0 (Primitive ''Q'')))
     = Some (exResetting, newEvent ''add'' (AddPayload 0 (Primitive ''Q'')), [])
   \<and> (\<exists>w'. handleEvent exModel 0 (newEvent ''delete'' NoPayload)
          = Some (w', newEvent ''delete'' NoPayload,
                  [EventCall 1 (newEvent ''delete'' NoPayload),
                   EventCall 2 (newEvent ''delete'' NoPayload)])
        \<and> subs (rss w' ! 0) = None \<and> base (es w') = None \<and> count (es w') = 0)"
  using handleEvent_resetting[of 0 exResetting "newEvent ''add'' (AddPayload 0 (Primitive ''Q''))"]
        handleEvent_resetting[of 0 exModel "newEvent ''delete'' NoPayload"]
  by (auto simp add: exResetting_def exModel_def newEvent_def newResourceSubscription_def
      subsList_def registryCleared_def)

text \<open>
  C6. For a subscription in state Model whose model holds \<open>m\<close>, and a change event with
  the decoded entries \<open>props\<close> (keys distinct, as in a Go map): if every entry equals
  the current value or is a Delete sentinel for an absent key, \<^verbatim>\<open>handleEventChange\<close>
  returns false, the cache is unchanged (a legacy payload only logs the deprecation
  notice) and \<^verbatim>\<open>handleEvent\<close> calls no subscriber. Otherwise the model is replaced by a
  newly allocated map with unequal entries applied and present keys deleted, and the event
  is stamped with \<open>Changed\<close> = the surviving entries and \<open>OldValues\<close> = the previous map;
  \<^verbatim>\<open>handleEvent\<close> then calls every subscriber with the stamped event, unless the
  subscription is resetting.
\<close>

theorem model_change:
  assumes "p < length (rss w)" and "state (rss w ! p) = stateModel"
    and "model (rss w ! p) = Some mp" and "modelValues (heap w) mp = Some m"
    and "Payload r = ChangePayload props \<or> Payload r = LegacyChangePayload props"
    and "distinct (map fst props)"
    and "w1 = (if IsLegacyChangeEvent (Payload r)
               then logError w DeprecatedModelChangeEvent else w)"
  shows "handleEventChange w p r =
           (if list_all (noopEntry m) props then Some (w1, r, False)
            else Some (installModel w1 p (changedModel m props),
                       r\<lparr>Changed := filter (\<lambda>kv. \<not> noopEntry m kv) props,
                         OldValues := Some mp\<rparr>, True))
       \<and> (Event r = ''change'' \<longrightarrow>
            handleEvent w p r =
              (if resetting (rss w ! p) then Some (w, r, [])
               else if list_all (noopEntry m) props then Some (w1, r, [])
               else Some (installModel w1 p (changedModel m props),
                          r\<lparr>Changed := filter (\<lambda>kv. \<not> noopEntry m kv) props,
                            OldValues := Some mp\<rparr>,
                          map (\<lambda>s. EventCall s
                                 (r\<lparr>Changed := filter (\<lambda>kv. \<not> noopEntry m kv) props,
                                    OldValues := Some mp\<rparr>))
                              (subsList (subs (rss w ! p))))))"
proof -
  have st: "state (rss w ! p) \<noteq> stateCollection" using assms(2) by simp
  have hc: "handleEventChange w p r =
           (if list_all (noopEntry m) props then Some (w1, r, False)
            else Some (installModel w1 p (changedModel m props),
                       r\<lparr>Changed := filter (\<lambda>kv. \<not> noopEntry m kv) props,
                         OldValues := Some mp\<rparr>, True))"
    using handleEventChange_eq[OF assms(1) st assms(3,4,5,6)] assms(7) by simp
  have sub: "subs (rss (installModel w1 p (changedModel m props)) ! p) = subs (rss w ! p)"
    and len: "p < length (rss (installModel w1 p (changedModel m props)))"
    using assms(1,7) by (simp_all add: installModel_def logError_def)
  have "Event r = ''change'' \<longrightarrow>
            handleEvent w p r =
              (if resetting (rss w ! p) then Some (w, r, [])
               else if list_all (noopEntry m) props then Some (w1, r, [])
               else Some (installModel w1 p (changedModel m props),
                          r\<lparr>Changed := filter (\<lambda>kv. \<not> noopEntry m kv) props,
                            OldValues := Some mp\<rparr>,
                          map (\<lambda>s. EventCall s
                                 (r\<lparr>Changed := filter (\<lambda>kv. \<not> noopEntry m kv) props,
                                    OldValues := Some mp\<rparr>))
                              (subsList (subs (rss w ! p)))))"
    using assms(1,2) hc sub len
    by (simp add: handleEvent_def nth_opt_def notifySubs_def)
  then show ?thesis using hc by blast
qed

text \<open>
  An instance, scenario S1: the model \<open>{a: 1, b: 2}\<close> and the change \<open>{a: 1, c: 3}\<close>
  give \<open>Changed = {c: 3}\<close>; the change \<open>{a: 1, z: Delete}\<close> changes nothing.
\<close>

theorem model_change_witness:
  "handleEventChange exModel 0
      (newEvent ''change'' (ChangePayload [(''a'', Primitive ''1''), (''c'', Primitive ''3'')]))
     = Some (installModel exModel 0
               (changedModel [''a'' \<mapsto> Primitive ''1'', ''b'' \<mapsto> Primitive ''2'']
                  [(''a'', Primitive ''1''), (''c'', Primitive ''3'')]),
             (newEvent ''change''
                (ChangePayload [(''a'', Primitive ''1''), (''c'', Primitive ''3'')]))
               \<lparr>Changed := [(''c'', Primitive ''3'')], OldValues := Some 0\<rparr>,
             True)
   \<and> handleEventChange exModel 0
        (newEvent ''change'' (ChangePayload [(''a'', Primitive ''1''), (''z'', DeleteValue)]))
     = Some (exModel,
             newEvent ''change'' (ChangePayload [(''a'', Primitive ''1''), (''z'', DeleteValue)]),
             False)
   \<and> handleEvent exModel 0
        (newEvent ''change'' (ChangePayload [(''a'', Primitive ''1''), (''z'', DeleteValue)]))
     = Some (exModel,
             newEvent ''change'' (ChangePayload [(''a'', Primitive ''1''), (''z'', DeleteValue)]),
             [])"
  using model_change[of 0 exModel 0 "[''a'' \<mapsto> Primitive ''1'', ''b'' \<mapsto> Primitive ''2'']"
          "newEvent ''change'' (ChangePayload [(''a'', Primitive ''1''), (''c'', Primitive ''3'')])"
          "[(''a'', Primitive ''1''), (''c'', Primitive ''3'')]" exModel]
        model_change[of 0 exModel 0 "[''a'' \<mapsto> Primitive ''1'', ''b'' \<mapsto> Primitive ''2'']"
          "newEvent ''change'' (ChangePayload [(''a'', Primitive ''1''), (''z'', DeleteValue)])"
          "[(''a'', Primitive ''1''), (''z'', DeleteValue)]" exModel]
  by (simp add: exModel_def newEvent_def newResourceSubscription_def modelValues_def nth_opt_def
      IsLegacyChangeEvent_def noopEntry_def mapGet_def)

text \<open>
  C7. For a subscription in state Collection whose collection holds \<open>xs\<close>: an add event
  with an index outside \<open>[0, len]\<close> and a remove event with an index outside \<open>[0, len)\<close>
  are rejected: the handler logs, returns false and changes nothing else, and it does not
  panic. An add in bounds replaces the collection by a newly allocated slice one longer,
  with the value spliced in at the index; a remove in bounds captures the removed value in
  the event and replaces the collection by a newly allocated slice one shorter.
  \<^verbatim>\<open>handleEvent\<close> calls the subscribers exactly when the handler returns true.
\<close>

theorem collection_add_remove:
  assumes "p < length (rss w)" and "state (rss w ! p) = stateCollection"
    and "collection (rss w ! p) = Some cp" and "collectionValues (heap w) cp = Some xs"
  shows "(Payload r = AddPayload idx v \<longrightarrow>
            handleEventAdd w p r =
              (if idx < 0 \<or> int (length xs) < idx
               then Some (logError w (ErrOutOfBounds idx), r, False)
               else Some (installCollection w p (take (nat idx) xs @ v # drop (nat idx) xs),
                          r\<lparr>Idx := idx, Value := v\<rparr>, True)))
       \<and> (Payload r = RemovePayload idx \<longrightarrow>
            handleEventRemove w p r =
              (if idx < 0 \<or> int (length xs) \<le> idx
               then Some (logError w (ErrOutOfBounds idx), r, False)
               else Some (installCollection w p (take (nat idx) xs @ drop (Suc (nat idx)) xs),
                          r\<lparr>Value := xs ! nat idx, Idx := idx\<rparr>, True)))
       \<and> (Event r = ''add'' \<longrightarrow> \<not> resetting (rss w ! p) \<longrightarrow>
            handleEvent w p r =
              do { (w', r', ok) \<leftarrow> handleEventAdd w p r;
                   Some (w', r', if ok then map (\<lambda>s. EventCall s r') (subsList (subs (rss w ! p)))
                                 else []) })
       \<and> (Event r = ''remove'' \<longrightarrow> \<not> resetting (rss w ! p) \<longrightarrow>
            handleEvent w p r =
              do { (w', r', ok) \<leftarrow> handleEventRemove w p r;
                   Some (w', r', if ok then map (\<lambda>s. EventCall s r') (subsList (subs (rss w ! p)))
                                 else []) })"
proof (intro conjI impI)
  assume "Payload r = AddPayload idx v"
  then show "handleEventAdd w p r =
              (if idx < 0 \<or> int (length xs) < idx
               then Some (logError w (ErrOutOfBounds idx), r, False)
               else Some (installCollection w p (take (nat idx) xs @ v # drop (nat idx) xs),
                          r\<lparr>Idx := idx, Value := v\<rparr>, True))"
    using handleEventAdd_eq[OF assms(1) _ assms(3,4)] assms(2) by simp
next
  assume "Payload r = RemovePayload idx"
  then show "handleEventRemove w p r =
              (if idx < 0 \<or> int (length xs) \<le> idx
               then Some (logError w (ErrOutOfBounds idx), r, False)
               else Some (installCollection w p (take (nat idx) xs @ drop (Suc (nat idx)) xs),
                          r\<lparr>Value := xs ! nat idx, Idx := idx\<rparr>, True))"
    using handleEventRemove_eq[OF assms(1) _ assms(3,4)] assms(2) by simp
next
  assume ev: "Event r = ''add''" and nr: "\<not> resetting (rss w ! p)"
  show "handleEvent w p r =
              do { (w', r', ok) \<leftarrow> handleEventAdd w p r;
                   Some (w', r', if ok then map (\<lambda>s. EventCall s r') (subsList (subs (rss w ! p)))
                                 else []) }"
  proof (cases "DecodeAddEvent (Payload r)")
    case (Inl e')
    then show ?thesis using assms ev nr
      by (simp add: handleEvent_def handleEventAdd_def nth_opt_def logError_def)
  next
    case (Inr iv)
    then obtain i' v' where pl: "Payload r = AddPayload i' v'"
      by (auto simp: DecodeAddEvent_def split: Payload.splits)
    show ?thesis
      using assms ev nr handleEventAdd_eq[OF assms(1) _ assms(3,4) pl]
      by (simp add: handleEvent_def nth_opt_def notifySubs_def logError_def
          installCollection_def)
  qed
next
  assume ev: "Event r = ''remove''" and nr: "\<not> resetting (rss w ! p)"
  show "handleEvent w p r =
              do { (w', r', ok) \<leftarrow> handleEventRemove w p r;
                   Some (w', r', if ok then map (\<lambda>s. EventCall s r') (subsList (subs (rss w ! p)))
                                 else []) }"
  proof (cases "DecodeRemoveEvent (Payload r)")
    case (Inl e')
    then show ?thesis using assms ev nr
      by (simp add: handleEvent_def handleEventRemove_def nth_opt_def logError_def)
  next
    case (Inr i')
    then have pl: "Payload r = RemovePayload i'"
      by (auto simp: DecodeRemoveEvent_def split: Payload.splits)
    show ?thesis
      using assms ev nr handleEventRemove_eq[OF assms(1) _ assms(3,4) pl]
      by (simp add: handleEvent_def nth_opt_def notifySubs_def logError_def
          installCollection_def)
  qed
qed

text \<open>
  An instance, scenario S2: on \<open>[X, Y, Z]\<close>, an add at 4 and a remove at 3 are rejected,
  an add of \<open>Q\<close> at 1 gives \<open>[X, Q, Y, Z]\<close> and a remove at 2 gives \<open>[X, Y]\<close> and
  captures \<open>Z\<close>.
\<close>

theorem collection_add_remove_witness:
  "handleEventAdd exCollection 0 (newEvent ''add'' (AddPayload 4 (Primitive ''Q'')))
     = Some (logError exCollection (ErrOutOfBounds 4),
             newEvent ''add'' (AddPayload 4 (Primitive ''Q'')), False)
   \<and> handleEventAdd exCollection 0 (newEvent ''add'' (AddPayload 1 (Primitive ''Q'')))
     = Some (installCollection exCollection 0
               [Primitive ''X'', Primitive ''Q'', Primitive ''Y'', Primitive ''Z''],
             (newEvent ''add'' (AddPayload 1 (Primitive ''Q'')))
               \<lparr>Idx := 1, Value := Primitive ''Q''\<rparr>, True)
   \<and> handleEventRemove exCollection 0 (newEvent ''remove'' (RemovePayload 3))
     = Some (logError exCollection (ErrOutOfBounds 3),
             newEvent ''remove'' (RemovePayload 3), False)
   \<and> handleEventRemove exCollection 0 (newEvent ''remove'' (RemovePayload 2))
     = Some (installCollection exCollection 0 [Primitive ''X'', Primitive ''Y''],
             (newEvent ''remove'' (RemovePayload 2))
               \<lparr>Value := Primitive ''Z'', Idx := 2\<rparr>, True)"
  using collection_add_remove[of 0 exCollection 0
          "[Primitive ''X'', Primitive ''Y'', Primitive ''Z'']"
          "newEvent ''add'' (AddPayload 4 (Primitive ''Q''))" 4 "Primitive ''Q''"]
        collection_add_remove[of 0 exCollection 0
          "[Primitive ''X'', Primitive ''Y'', Primitive ''Z'']"
          "newEvent ''add'' (AddPayload 1 (Primitive ''Q''))" 1 "Primitive ''Q''"]
        collection_add_remove[of 0 exCollection 0
          "[Primitive ''X'', Primitive ''Y'', Primitive ''Z'']"
          "newEvent ''remove'' (RemovePayload 3)" 3]
        collection_add_remove[of 0 exCollection 0
          "[Primitive ''X'', Primitive ''Y'', Primitive ''Z'']"
          "newEvent ''remove'' (RemovePayload 2)" 2]
  by (simp add: exCollection_def newEvent_def newResourceSubscription_def collectionValues_def
      nth_opt_def)

text \<open>
  C9. For every sequence of events dispatched to a loaded subscription, whatever their
  kinds, no handler panics and every container that was in the store before is in the
  store afterwards with the same contents; the model and collection pointers of the
  subscription are unchanged or point to containers allocated since.
\<close>

theorem containers_never_mutated:
  "loadedOk w p \<Longrightarrow>
   \<exists>w' cs. handleEvents w p evs = Some (w', cs)
      \<and> take (length (heap w)) (heap w') = heap w
      \<and> freshOrSame (model (rss w ! p)) (model (rss w' ! p)) (length (heap w))
      \<and> freshOrSame (collection (rss w ! p)) (collection (rss w' ! p)) (length (heap w))
      \<and> loadedOk w' p"
proof -
  assume "loadedOk w p"
  then obtain w' cs where h: "handleEvents w p evs = Some (w', cs)" "grows w w' p"
    using handleEvents_grows by blast
  then have "take (length (heap w)) (heap w') = heap w"
    by (auto simp: grows_def prefix_def)
  then show ?thesis using h by (auto simp: grows_def)
qed

text \<open>An instance: two change events applied to the model of scenario S1.\<close>

theorem containers_never_mutated_witness:
  "loadedOk exModel 0
   \<and> (\<exists>w' cs. handleEvents exModel 0
          [newEvent ''change'' (ChangePayload [(''c'', Primitive ''3'')]),
           newEvent ''change'' (ChangePayload [(''a'', DeleteValue)])] = Some (w', cs)
        \<and> take (length (heap exModel)) (heap w') = heap exModel)"
proof -
  have ok: "loadedOk exModel 0"
    by (simp add: loadedOk_def exModel_def newResourceSubscription_def modelValues_def
        nth_opt_def)
  show ?thesis
    using ok containers_never_mutated[OF ok,
        of "[newEvent ''change'' (ChangePayload [(''c'', Primitive ''3'')]),
             newEvent ''change'' (ChangePayload [(''a'', DeleteValue)])]"]
    by blast
qed

section \<open>Claims about unsubscribing and the get response\<close>

text \<open>
  C10. \<^verbatim>\<open>Unsubscribe\<close> with a nil subscriber does not panic, removes no subscriber, and
  still decrements the count of the parent by one. If the subscription is a query
  subscription whose subscriber set is empty, it is unregistered together with its links;
  otherwise nothing else changes.
\<close>

theorem unsubscribe_nil:
  "p < length (rss w) \<Longrightarrow>
   \<exists>w'. Unsubscribe w p None = Some w'
      \<and> subs (rss w' ! p) = subs (rss w ! p)
      \<and> count (es w') = count (es w) - 1
      \<and> (if query (rss w ! p) \<noteq> [] \<and> subsList (subs (rss w ! p)) = []
          then w' = removeCount
                      (w\<lparr>es := unregistered (es w) (query (rss w ! p)) (links (rss w ! p)),
                         rss := (rss w)[p := (rss w ! p)\<lparr>links := []\<rparr>]\<rparr>) 1
             \<and> registryCleared (es w') (query (rss w ! p)) (links (rss w ! p))
             \<and> links (rss w' ! p) = []
          else w' = removeCount w 1)"
proof -
  assume p: "p < length (rss w)"
  show ?thesis
  proof (cases "query (rss w ! p) \<noteq> [] \<and> subsList (subs (rss w ! p)) = []")
    case True
    let ?w' = "removeCount
                      (w\<lparr>es := unregistered (es w) (query (rss w ! p)) (links (rss w ! p)),
                         rss := (rss w)[p := (rss w ! p)\<lparr>links := []\<rparr>]\<rparr>) 1"
    have "Unsubscribe w p None = Some ?w'"
      using p True unregister_eq[OF p] by (simp add: Unsubscribe_def nth_opt_def)
    moreover have "subs (rss ?w' ! p) = subs (rss w ! p)" "links (rss ?w' ! p) = []"
      using p by (simp_all add: removeCount_def)
    moreover have "count (es ?w') = count (es w) - 1"
      by (simp add: removeCount_def unregistered_def)
    moreover have "registryCleared (es ?w') (query (rss w ! p)) (links (rss w ! p))"
      by (simp add: removeCount_def registryCleared_count registryCleared_unregistered)
    ultimately show ?thesis using True by simp
  next
    case False
    have "Unsubscribe w p None = Some (removeCount w 1)"
      using p False by (auto simp: Unsubscribe_def nth_opt_def)
    moreover have "subs (rss (removeCount w 1) ! p) = subs (rss w ! p)"
      "count (es (removeCount w 1)) = count (es w) - 1"
      by (simp_all add: removeCount_def)
    ultimately show ?thesis using False by auto
  qed
qed

text \<open>An instance: a query subscription without subscribers and with one link.\<close>

theorem unsubscribe_nil_witness:
  "\<exists>w'. Unsubscribe exIdle 0 None = Some w'
      \<and> subs (rss w' ! 0) = Some Dlist.empty
      \<and> count (es w') = 0
      \<and> queries (es w') ''a=1'' = None
      \<and> links (rss w' ! 0) = []"
  using unsubscribe_nil[of 0 exIdle]
  by (auto simp add: exIdle_def newResourceSubscription_def subsList_def registryCleared_def
      removeCount_def unregistered_def)

text \<open>
  C5. When the get request fails, by a transport error or by a response that does not
  decode to a result, \<^verbatim>\<open>processGetResponse\<close> sets the state to Error, stores the error,
  drops the subscribers, unregisters the subscription together with its links and lowers
  the count; the work item of \<^verbatim>\<open>enqueueGetResponse\<close> then calls \<open>Loaded(nil, err)\<close> once for
  every subscriber that was waiting (the list of subscribers has no duplicates).
\<close>

theorem get_failure:
  assumes "p < length (rss w)"
    and "err0 = Some e' \<or> (err0 = None \<and> DecodeGetResponse payload = Inl e')"
  shows "\<exists>w'. processGetResponse w p payload err0 = Some (w', p, subsList (subs (rss w ! p)))
      \<and> state (rss w' ! p) = stateError \<and> err (rss w' ! p) = Some e'
      \<and> subs (rss w' ! p) = None \<and> links (rss w' ! p) = []
      \<and> registryCleared (es w') (query (rss w ! p)) (links (rss w ! p))
      \<and> count (es w') = count (es w) - int (length (subsList (subs (rss w ! p))))
      \<and> enqueueGetResponse w p payload err0
           = Some (w', map (\<lambda>s. Loaded s None (Some e')) (subsList (subs (rss w ! p))))
      \<and> distinct (subsList (subs (rss w ! p)))"
proof -
  note p = assms(1)
  let ?rs = "rss w ! p"
  let ?w1 = "w\<lparr>rss := (rss w)[p := ?rs\<lparr>state := stateError, err := Some e', subs := None\<rparr>]\<rparr>"
  let ?w' = "removeCount
      (w\<lparr>es := unregistered (es w) (query ?rs) (links ?rs),
         rss := (rss w)[p := ?rs\<lparr>state := stateError, err := Some e', subs := None,
                                  links := []\<rparr>]\<rparr>)
      (int (length (subsList (subs ?rs))))"
  have dec: "(case err0 of None \<Rightarrow> DecodeGetResponse payload | Some x \<Rightarrow> Inl x) = Inl e'"
    using assms(2) by auto
  have "unregister ?w1 p = Some (?w1\<lparr>es := unregistered (es ?w1) (query (rss ?w1 ! p)) (links (rss ?w1 ! p)),
             rss := (rss ?w1)[p := (rss ?w1 ! p)\<lparr>links := []\<rparr>]\<rparr>)"
    by (rule unregister_eq) (simp add: p)
  then have u: "unregister ?w1 p =
      Some (w\<lparr>es := unregistered (es w) (query ?rs) (links ?rs),
         rss := (rss w)[p := ?rs\<lparr>state := stateError, err := Some e', subs := None,
                                  links := []\<rparr>]\<rparr>)"
    using p by simp
  have pg: "processGetResponse w p payload err0 = Some (?w', p, subsList (subs ?rs))"
    using p u by (simp add: processGetResponse_def dec nth_opt_def Let_def)
  have f: "state (rss ?w' ! p) = stateError" "err (rss ?w' ! p) = Some e'"
    "subs (rss ?w' ! p) = None" "links (rss ?w' ! p) = []" "p < length (rss ?w')"
    using p by (simp_all add: removeCount_def)
  have rc: "registryCleared (es ?w') (query ?rs) (links ?rs)"
    by (simp add: removeCount_def registryCleared_count registryCleared_unregistered)
  have c: "count (es ?w') = count (es w) - int (length (subsList (subs ?rs)))"
    by (simp add: removeCount_def unregistered_def)
  have en: "enqueueGetResponse w p payload err0
           = Some (?w', map (\<lambda>s. Loaded s None (Some e')) (subsList (subs ?rs)))"
    using pg f by (simp add: enqueueGetResponse_def nth_opt_def)
  show ?thesis using pg f rc c en distinct_subsList by blast
qed

text \<open>An instance: a transport error for a subscription with the subscribers 1 and 2.\<close>

theorem get_failure_witness:
  "\<exists>w'. enqueueGetResponse exRequested 0 NoPayload (Some (BusTransport ''timeout''))
          = Some (w', [Loaded 1 None (Some (BusTransport ''timeout'')),
                       Loaded 2 None (Some (BusTransport ''timeout''))])
      \<and> state (rss w' ! 0) = stateError
      \<and> err (rss w' ! 0) = Some (BusTransport ''timeout'')
      \<and> queries (es w') ''b=2&a=1'' = None
      \<and> count (es w') = 0"
  using get_failure[of 0 exRequested "Some (BusTransport ''timeout'')" "BusTransport ''timeout''"
          NoPayload]
  by (auto simp add: exRequested_def newResourceSubscription_def subsList_def
      registryCleared_def)

text \<open>
  C4, as the spec states it, says that the decoded model or collection is installed only
  if the state of the canonical subscription is Requested. The guard of the code is
  \<^verbatim>\<open>nrs.state > stateRequested\<close>: a canonical subscription that is created while the
  response is processed has the zero state \<^verbatim>\<open>stateSubscribed\<close>, and the model is installed.
\<close>

theorem install_without_state_requested:
  "(case getResourceSubscription exRequested ''a=1&b=2'' of
      (w1, np) \<Rightarrow> np = 1 \<and> state (rss w1 ! np) = stateSubscribed)
   \<and> (case processGetResponse exRequested 0 exNormalized None of
        None \<Rightarrow> False
      | Some (w', np, sl) \<Rightarrow>
          np = 1 \<and> state (rss w' ! np) = stateModel \<and> model (rss w' ! np) = Some 0
          \<and> heap w' = [MkModel (map_of [(''x'', Primitive ''1'')])])"
  by (simp add: exRequested_def exNormalized_def newResourceSubscription_def
      getResourceSubscription_def processGetResponse_def DecodeGetResponse_def
      linkNormalized_def nth_opt_def subsList_def Let_def)

text \<open>
  C4, amended: when the get response carries a normalized query different from the
  requested one, \<^verbatim>\<open>processGetResponse\<close> copies all subscribers of the requesting
  subscription to the canonical one, records the requested query as a link of the
  canonical subscription (an entry of the parent's \<open>links\<close> replacing the entry of
  \<open>queries\<close>, or \<open>base\<close> for the empty query), installs the decoded model or collection
  if and only if the state of the canonical subscription is at most Requested (Subscribed,
  Error or Requested), and returns as the notify list exactly the subscribers of the
  requesting subscription, each of which gets \<open>Loaded(nrs, nil)\<close>. The store of
  subscriptions is assumed well formed: the canonical subscription exists and its
  subscriber map is not nil.
\<close>

theorem normalized_get_response:
  assumes p: "p < length (rss w)"
    and dec: "DecodeGetResponse payload = Inr result"
    and ne: "Query result \<noteq> query (rss w ! p)"
    and g: "getResourceSubscription w (Query result) = (w1, np)"
    and npv: "np < length (rss w1)"
    and sd: "subs (rss w1 ! np) = Some d"
  shows "\<exists>w'. processGetResponse w p payload None = Some (w', np, subsList (subs (rss w ! p)))
     \<and> enqueueGetResponse w p payload None
          = Some (w', map (\<lambda>s. Loaded s (Some np) None) (subsList (subs (rss w ! p))))
     \<and> set (subsList (subs (rss w' ! np)))
          = set (list_of_dlist d) \<union> set (subsList (subs (rss w ! p)))
     \<and> links (rss w' ! np) = links (rss w1 ! np) @ [query (rss w ! p)]
     \<and> (if query (rss w ! p) = [] then base (es w') = Some np
         else (case elinks (es w') of None \<Rightarrow> False
               | Some l \<Rightarrow> l (query (rss w ! p)) = Some np)
              \<and> queries (es w') (query (rss w ! p)) = None)
     \<and> (if stateByte (state (rss w1 ! np)) > stateByte stateRequested
         then heap w' = heap w \<and> state (rss w' ! np) = state (rss w1 ! np)
              \<and> model (rss w' ! np) = model (rss w1 ! np)
              \<and> collection (rss w' ! np) = collection (rss w1 ! np)
         else (case Model result of
                 Some m \<Rightarrow> heap w' = heap w @ [MkModel (map_of m)]
                            \<and> state (rss w' ! np) = stateModel
                            \<and> model (rss w' ! np) = Some (length (heap w))
               | None \<Rightarrow> heap w' = heap w @ [MkCollection (Collection result)]
                          \<and> state (rss w' ! np) = stateCollection
                          \<and> collection (rss w' ! np) = Some (length (heap w))))"
proof -
  let ?rs = "rss w ! p"
  let ?nrs = "rss w1 ! np"
  let ?ss = "subsList (subs ?rs)"
  let ?e1 = "(if query ?rs = [] then (es w1)\<lparr>base := Some np\<rparr>
                       else (es w1)\<lparr>elinks :=
                                Some ((case elinks (es w1) of None \<Rightarrow> Map.empty | Some l \<Rightarrow> l)
                                        (query ?rs \<mapsto> np)),
                              queries := (queries (es w1))(query ?rs := None)\<rparr>)"
  let ?nrs' = "?nrs\<lparr>links := links ?nrs @ [query ?rs],
                     subs := Some (fold Dlist.insert ?ss d)\<rparr>"
  let ?w4 = "w1\<lparr>es := ?e1, rss := (rss w1)[np := ?nrs']\<rparr>"
  have old: "rss w1 ! p = ?rs" "p < length (rss w1)" "heap w1 = heap w"
    using getResourceSubscription_old[OF g p] by auto
  define nrs' where "nrs' = ?nrs'"
  define w4 where "w4 = ?w4"
  have ln: "linkNormalized w p (Query result) = Some (w4, np)"
    unfolding w4_def by (rule linkNormalized_eq[OF p g npv sd])
  have s4: "subsList (subs (rss w4 ! p)) = ?ss"
  proof (cases "np = p")
    case True
    then have "subs ?rs = Some d" using sd old by simp
    then have "fold Dlist.insert ?ss d = d" by (rule subsList_fold_self)
    then show ?thesis using True npv \<open>subs ?rs = Some d\<close> by (simp add: w4_def)
  next
    case False
    then show ?thesis using old by (simp add: w4_def)
  qed
  have n4: "nth_opt (rss w4) np = Some nrs'" "nth_opt (rss w4) p = Some (rss w4 ! p)"
    using npv old by (simp_all add: nth_opt_def w4_def nrs'_def)
  have h4: "heap w4 = heap w" "es w4 = ?e1" "length (rss w4) = length (rss w1)"
    using old by (simp_all add: w4_def)
  have f4: "state nrs' = state ?nrs" "model nrs' = model ?nrs" "collection nrs' = collection ?nrs"
    "links nrs' = links ?nrs @ [query ?rs]" "subs nrs' = Some (fold Dlist.insert ?ss d)"
    "rss w4 ! np = nrs'"
    using npv by (simp_all add: nrs'_def w4_def)
  define w' where "w' =
     (if stateByte (state nrs') > stateByte stateRequested then w4
      else (case Model result of
              Some m \<Rightarrow> w4\<lparr>heap := heap w4 @ [MkModel (map_of m)],
                            rss := (rss w4)[np := nrs'\<lparr>model := Some (length (heap w4)),
                                                         state := stateModel\<rparr>]\<rparr>
            | None \<Rightarrow> w4\<lparr>heap := heap w4 @ [MkCollection (Collection result)],
                          rss := (rss w4)[np := nrs'\<lparr>collection := Some (length (heap w4)),
                                                       state := stateCollection\<rparr>]\<rparr>))"
  have pg: "processGetResponse w p payload None = Some (w', np, ?ss)"
  proof -
    have "processGetResponse w p payload None =
       (if stateByte (state nrs') > stateByte stateRequested then Some (w4, np, ?ss)
        else (case Model result of
                    Some m \<Rightarrow>
                      Some (w4\<lparr>heap := heap w4 @ [MkModel (map_of m)],
                               rss := (rss w4)[np := nrs'\<lparr>model := Some (length (heap w4)),
                                                         state := stateModel\<rparr>]\<rparr>,
                            np, ?ss)
                  | None \<Rightarrow>
                      Some (w4\<lparr>heap := heap w4 @ [MkCollection (Collection result)],
                               rss := (rss w4)[np := nrs'\<lparr>collection := Some (length (heap w4)),
                                                         state := stateCollection\<rparr>]\<rparr>,
                            np, ?ss)))"
      unfolding processGetResponse_def
      by (simp add: dec nth_opt_valid[OF p] ne ln n4 s4 Let_def split: option.splits)
    then show ?thesis by (simp add: w'_def split: option.splits)
  qed
  have len': "np < length (rss w')"
    using npv h4(3) by (simp add: w'_def split: option.splits)
  have st': "state (rss w' ! np) \<noteq> stateError"
  proof (cases "stateByte (state nrs') > stateByte stateRequested")
    case True
    then have "state nrs' \<noteq> stateError" by auto
    then show ?thesis using True f4(6) by (simp add: w'_def)
  next
    case False
    then show ?thesis using npv h4(3) by (simp add: w'_def split: option.splits)
  qed
  have en: "enqueueGetResponse w p payload None
          = Some (w', map (\<lambda>s. Loaded s (Some np) None) ?ss)"
    using pg len' st' by (simp add: enqueueGetResponse_def nth_opt_def)
  have sub': "subs (rss w' ! np) = Some (fold Dlist.insert ?ss d)"
    and lk': "links (rss w' ! np) = links ?nrs @ [query ?rs]"
    and es': "es w' = ?e1"
    using npv h4 f4 by (simp_all add: w'_def split: option.splits)
  have c1: "set (subsList (subs (rss w' ! np))) = set (list_of_dlist d) \<union> set ?ss"
    using sub' by (auto simp: subsList_def set_fold_insert)
  have c3: "(if query ?rs = [] then base (es w') = Some np
         else (case elinks (es w') of None \<Rightarrow> False
               | Some l \<Rightarrow> l (query ?rs) = Some np)
              \<and> queries (es w') (query ?rs) = None)"
    using es' by simp
  have c4: "(if stateByte (state ?nrs) > stateByte stateRequested
         then heap w' = heap w \<and> state (rss w' ! np) = state ?nrs
              \<and> model (rss w' ! np) = model ?nrs
              \<and> collection (rss w' ! np) = collection ?nrs
         else (case Model result of
                 Some m \<Rightarrow> heap w' = heap w @ [MkModel (map_of m)]
                            \<and> state (rss w' ! np) = stateModel
                            \<and> model (rss w' ! np) = Some (length (heap w))
               | None \<Rightarrow> heap w' = heap w @ [MkCollection (Collection result)]
                          \<and> state (rss w' ! np) = stateCollection
                          \<and> collection (rss w' ! np) = Some (length (heap w))))"
    using npv h4 f4 by (simp add: w'_def split: option.splits)
  show ?thesis using pg en c1 lk' c3 c4 by blast
qed

text \<open>
  An instance: the query \<open>b=2&a=1\<close> is normalized to \<open>a=1&b=2\<close>, for which no
  subscription exists yet.
\<close>

theorem normalized_get_response_witness:
  "\<exists>w'. processGetResponse exRequested 0 exNormalized None = Some (w', 1, [1, 2])
     \<and> enqueueGetResponse exRequested 0 exNormalized None
          = Some (w', [Loaded 1 (Some 1) None, Loaded 2 (Some 1) None])
     \<and> set (subsList (subs (rss w' ! 1))) = {1, 2}
     \<and> links (rss w' ! 1) = [''b=2&a=1'']
     \<and> queries (es w') ''b=2&a=1'' = None
     \<and> state (rss w' ! 1) = stateModel"
proof -
  obtain w1 np where g: "getResourceSubscription exRequested ''a=1&b=2'' = (w1, np)"
    by (cases "getResourceSubscription exRequested ''a=1&b=2''")
  then have w1: "np = 1" "rss w1 = rss exRequested @ [newResourceSubscription ''a=1&b=2'']"
    by (auto simp: getResourceSubscription_def exRequested_def)
  have h: "0 < length (rss exRequested)"
    "DecodeGetResponse exNormalized
       = Inr \<lparr>Model = Some [(''x'', Primitive ''1'')], Collection = [], Query = ''a=1&b=2''\<rparr>"
    "Query \<lparr>Model = Some [(''x'', Primitive ''1'')], Collection = [], Query = ''a=1&b=2''\<rparr>
       \<noteq> query (rss exRequested ! 0)"
    "getResourceSubscription exRequested
       (Query \<lparr>Model = Some [(''x'', Primitive ''1'')], Collection = [], Query = ''a=1&b=2''\<rparr>)
       = (w1, np)"
    "np < length (rss w1)" "subs (rss w1 ! np) = Some Dlist.empty"
    using g w1
    by (simp_all add: exRequested_def exNormalized_def DecodeGetResponse_def
        newResourceSubscription_def)
  show ?thesis
    using normalized_get_response[OF h] w1
    by (auto simp add: exRequested_def newResourceSubscription_def subsList_def)
qed

end
